theory Spec2Isabelle
  imports Main "HOL-Library.AList"
begin

section \<open>Strings, paths and the filename patterns of \<open>server.py\<close>\<close>

text \<open>
  File names and paths are \<open>string\<close>s (lists of 8-bit characters). The model is the POSIX
  one: the path separator is \<open>/\<close>, \<open>str.lower\<close> acts on the ASCII letters and the
  regular expression class \<open>\d\<close> is the ten ASCII digits.
\<close>

definition is_digit :: "char \<Rightarrow> bool" where
  "is_digit c = (c \<in> set ''0123456789'')"

definition is_space :: "char \<Rightarrow> bool" where
  "is_space c = (c \<in> set [CHR 0x20, CHR 0x09, CHR 0x0A, CHR 0x0B, CHR 0x0C, CHR 0x0D,
                            CHR 0x1C, CHR 0x1D, CHR 0x1E, CHR 0x1F])"

definition lower_char :: "char \<Rightarrow> char" where
  "lower_char c =
     (case map_of (zip ''ABCDEFGHIJKLMNOPQRSTUVWXYZ'' ''abcdefghijklmnopqrstuvwxyz'') c of
        Some d \<Rightarrow> d
      | None \<Rightarrow> c)"

definition lower :: "string \<Rightarrow> string" where
  "lower s = map lower_char s"

definition startswith :: "string \<Rightarrow> string \<Rightarrow> bool" where
  "startswith s p = (take (length p) s = p)"

definition endswith :: "string \<Rightarrow> string \<Rightarrow> bool" where
  "endswith s x = (take (length x) (rev s) = rev x)"

definition endswith_any :: "string \<Rightarrow> string list \<Rightarrow> bool" where
  "endswith_any s xs = list_ex (endswith s) xs"

definition digit_val :: "char \<Rightarrow> nat" where
  "digit_val c =
     (case map_of (zip ''0123456789'' [0, 1, 2, 3, 4, 5, 6, 7, 8, 9]) c of
        Some d \<Rightarrow> d
      | None \<Rightarrow> 0)"

text \<open>\<open>int(pg_str)\<close> on a run of digits.\<close>

definition nat_of_digits :: "string \<Rightarrow> nat" where
  "nat_of_digits ds = foldl (\<lambda>n c. 10 * n + digit_val c) 0 ds"

text \<open>\<open>os.path.basename\<close>: what follows the last separator.\<close>

definition basename :: "string \<Rightarrow> string" where
  "basename p = rev (takeWhile (\<lambda>c. c \<noteq> CHR ''/'') (rev p))"

text \<open>\<open>os.path.join(a, b)\<close> of \<open>posixpath\<close>.\<close>

definition path_join :: "string \<Rightarrow> string \<Rightarrow> string" where
  "path_join a b =
     (if startswith b ''/'' then b
      else if a = [] \<or> endswith a ''/'' then a @ b
      else a @ ''/'' @ b)"

text \<open>\<open>root.split(os.sep)\<close>.\<close>

fun split_sep :: "string \<Rightarrow> string list" where
  "split_sep [] = [[]]"
| "split_sep (c # cs) =
     (if c = CHR ''/'' then [] # split_sep cs
      else (case split_sep cs of
              p # ps \<Rightarrow> (c # p) # ps
            | [] \<Rightarrow> [[c]]))"

text \<open>
  \<open>$\<close> of Python's \<open>re\<close> matches at the end of the string and just before a newline that
  ends the string.
\<close>

definition at_end :: "string \<Rightarrow> bool" where
  "at_end r = (r = [] \<or> r = [CHR 0x0A])"

definition strip_final_newline :: "string \<Rightarrow> string" where
  "strip_final_newline s = (if s \<noteq> [] \<and> last s = CHR 0x0A then butlast s else s)"

text \<open>
  \<open>re.search(r'[\-_](\d{3,})$', folder_name)\<close>: the result is group 1, the run of digits
  that ends the name, when it has three digits or more and follows \<open>-\<close> or \<open>_\<close>.
\<close>

definition pixiv_folder_match :: "string \<Rightarrow> string option" where
  "pixiv_folder_match folder_name =
     (let s = rev (strip_final_newline folder_name);
          digits = takeWhile is_digit s;
          sep = take 1 (dropWhile is_digit s)
      in if 3 \<le> length digits \<and> (sep = ''-'' \<or> sep = ''_'')
         then Some (rev digits) else None)"

text \<open>
  \<open>re.match(r'^(.*?)[\s\-_]*(\d+)$', folder_name)\<close>: group 1 is the shortest prefix without a
  newline after which only separators, then digits, then the end follow.
\<close>

definition author_tail_ok :: "string \<Rightarrow> bool" where
  "author_tail_ok t =
     (let t1 = dropWhile (\<lambda>c. is_space c \<or> c = CHR ''-'' \<or> c = CHR ''_'') t
      in takeWhile is_digit t1 \<noteq> [] \<and> at_end (dropWhile is_digit t1))"

fun author_match :: "string \<Rightarrow> string \<Rightarrow> string option" where
  "author_match acc [] = (if author_tail_ok [] then Some (rev acc) else None)"
| "author_match acc (c # cs) =
     (if author_tail_ok (c # cs) then Some (rev acc)
      else if c = CHR 0x0A then None
      else author_match (c # acc) cs)"

definition strip :: "string \<Rightarrow> string" where
  "strip s = rev (dropWhile is_space (rev (dropWhile is_space s)))"

definition author_name_of :: "string \<Rightarrow> string" where
  "author_name_of folder_name =
     (case author_match [] folder_name of
        Some g \<Rightarrow> (if strip g \<noteq> [] then strip g else folder_name)
      | None \<Rightarrow> folder_name)"

text \<open>
  \<open>pixiv_file_pattern = ^(\d{5,})(?:_p(\d+))?\<close>: the work id is the leading run of digits
  (five or more), the page string the digits after \<open>_p\<close> when they follow at once.
\<close>

definition pixiv_file_pattern :: "string \<Rightarrow> (string \<times> string option) option" where
  "pixiv_file_pattern mf =
     (let wid = takeWhile is_digit mf;
          rest = dropWhile is_digit mf;
          pg = takeWhile is_digit (drop 2 rest)
      in if length wid < 5 then None
         else Some (wid, if startswith rest ''_p'' \<and> pg \<noteq> [] then Some pg else None))"

text \<open>
  \<open>tweet_id_pattern = _(\d{14,})(_|\.)\<close>, used with \<open>search\<close>: the leftmost underscore
  followed by a run of at least 14 digits that ends before \<open>_\<close> or \<open>.\<close>; the result is
  group 1.
\<close>

fun tweet_id_pattern :: "string \<Rightarrow> string option" where
  "tweet_id_pattern [] = None"
| "tweet_id_pattern (c # cs) =
     (if c = CHR ''_'' \<and> 14 \<le> length (takeWhile is_digit cs)
         \<and> (case dropWhile is_digit cs of
               d # _ \<Rightarrow> d = CHR ''_'' \<or> d = CHR ''.''
             | [] \<Rightarrow> False)
      then Some (takeWhile is_digit cs)
      else tweet_id_pattern cs)"

text \<open>
  \<open>nums = re.findall(r'(\d{14,})', jf)\<close> and \<open>nums[0]\<close>: the first run of at least 14 digits,
  \<open>None\<close> when \<open>nums\<close> is empty.
\<close>

fun first_id_run :: "string \<Rightarrow> string option" where
  "first_id_run [] = None"
| "first_id_run (c # cs) =
     (if 14 \<le> length (takeWhile is_digit (c # cs)) then Some (takeWhile is_digit (c # cs))
      else first_id_run cs)"

definition is_hidden :: "string \<Rightarrow> bool" where
  "is_hidden f = startswith f ''.''"

definition is_json_file :: "string \<Rightarrow> bool" where
  "is_json_file f = endswith (lower f) ''.json''"

definition has_media_ext :: "string \<Rightarrow> bool" where
  "has_media_ext f =
     endswith_any (lower f) [''.jpg'', ''.jpeg'', ''.png'', ''.gif'', ''.mp4'', ''.webm'']"

text \<open>\<open>'video' if mf.lower().endswith(('.mp4', '.webm')) else 'image'\<close>.\<close>

definition m_type_of :: "string \<Rightarrow> string" where
  "m_type_of mf = (if endswith_any (lower mf) [''.mp4'', ''.webm''] then ''video'' else ''image'')"

section \<open>The store and the environment of a scan\<close>

text \<open>
  The five tables of \<open>init_db\<close>, a row per record and a table as the list of its rows in
  insertion order. \<open>media_type\<close> keeps the source's strings.
\<close>

record pixiv_work =
  pw_id :: string
  pw_title :: string
  pw_author :: string
  pw_timestamp :: int
  pw_total_pages :: nat
  pw_is_liked :: int
  pw_folder_name :: string
  pw_file_mtime :: int

record pixiv_page =
  pp_work_id :: string
  pp_page_num :: nat
  pp_file_path :: string
  pp_media_type :: string

record tweet =
  tw_id :: string
  tw_timestamp :: int
  tw_user_name :: string
  tw_text :: string
  tw_json_path :: string
  tw_tweet_url :: string
  tw_avatar_url :: string
  tw_folder_name :: string
  tw_file_mtime :: int
  tw_is_liked :: int

record tweet_medium =
  tm_tweet_id :: string
  tm_file_path :: string
  tm_media_type :: string

record other_work =
  ow_id :: string
  ow_filename :: string
  ow_folder_name :: string
  ow_file_path :: string
  ow_media_type :: string
  ow_file_mtime :: int
  ow_is_liked :: int

record store =
  pixiv_works :: "pixiv_work list"
  pixiv_pages :: "pixiv_page list"
  tweets :: "tweet list"
  tweet_media :: "tweet_medium list"
  other_works :: "other_work list"

definition empty_store :: store where
  "empty_store = \<lparr>pixiv_works = [], pixiv_pages = [], tweets = [], tweet_media = [],
                   other_works = []\<rparr>"

text \<open>
  A sidecar as \<open>json.load\<close> returns it, read through \<open>data.get\<close>: the two timestamp keys
  hold an integer or a string, the text keys a string; \<open>None\<close> is a missing key.
\<close>

datatype jval = JInt int | JStr string

record sidecar =
  sc_timestamp :: "jval option"
  sc_saved_at :: "jval option"
  sc_user_name :: "string option"
  sc_user :: "string option"
  sc_text :: "string option"
  sc_url :: "string option"
  sc_avatar_url :: "string option"
  sc_user_icon :: "string option"

datatype py_error = OSError | OperationalError

text \<open>
  What a scan reads from outside the program: the file system (\<open>os.walk\<close>, the
  modification time in milliseconds, \<open>None\<close> when \<open>os.path.getmtime\<close> raises; the sidecar,
  \<open>None\<close> when opening, decoding or reading it as an object raises), the library functions
  \<open>hashlib.md5(...).hexdigest()\<close> and \<open>int\<close> on a string, whether the database opens, and
  the order in which the pool completes the tasks.
\<close>

record env =
  walk :: "string \<Rightarrow> (string \<times> string list) list"
  getmtime_ms :: "string \<Rightarrow> int option"
  load_json :: "string \<Rightarrow> sidecar option"
  md5_hex :: "string \<Rightarrow> string"
  parse_int :: "string \<Rightarrow> int option"
  db_available :: bool
  as_completed :: "nat \<Rightarrow> nat list"

section \<open>\<open>scan_worker\<close>\<close>

text \<open>Python's \<open>a or b\<close> on the values a sidecar holds: empty strings and 0 are false.\<close>

definition or_str :: "string option \<Rightarrow> string option \<Rightarrow> string option" where
  "or_str a b = (case a of Some s \<Rightarrow> (if s \<noteq> [] then Some s else b) | None \<Rightarrow> b)"

definition jtruthy :: "jval \<Rightarrow> bool" where
  "jtruthy v = (case v of JInt n \<Rightarrow> n \<noteq> 0 | JStr s \<Rightarrow> s \<noteq> [])"

definition or_jval :: "jval option \<Rightarrow> jval option \<Rightarrow> jval option" where
  "or_jval a b = (case a of Some v \<Rightarrow> (if jtruthy v then Some v else b) | None \<Rightarrow> b)"

text \<open>
  \<open>raw_ts = data.get('timestamp') or data.get('saved_at') or 0\<close>, then \<open>int(raw_ts)\<close> with 0
  when it raises.
\<close>

definition sidecar_ts :: "env \<Rightarrow> sidecar \<Rightarrow> int" where
  "sidecar_ts e data =
     (case or_jval (sc_timestamp data) (or_jval (sc_saved_at data) (Some (JInt 0))) of
        Some (JInt n) \<Rightarrow> n
      | Some (JStr s) \<Rightarrow> (case parse_int e s of Some n \<Rightarrow> n | None \<Rightarrow> 0)
      | None \<Rightarrow> 0)"

definition str_or :: "string option \<Rightarrow> string \<Rightarrow> string" where
  "str_or a d = (case a of Some s \<Rightarrow> s | None \<Rightarrow> d)"

text \<open>\<open>media_map_for_tweets.get(tid, [])\<close>: the media files whose pattern match is \<open>tid\<close>.\<close>

definition media_map_for_tweets :: "string list \<Rightarrow> string \<Rightarrow> string list" where
  "media_map_for_tweets media_files tid = filter (\<lambda>f. tweet_id_pattern f = Some tid) media_files"

text \<open>The row and the media rows of one new tweet (lines 152 to 170).\<close>

definition tweet_entry ::
  "env \<Rightarrow> string \<Rightarrow> string \<Rightarrow> string list \<Rightarrow> string \<Rightarrow> string \<Rightarrow> sidecar \<Rightarrow> int
     \<Rightarrow> tweet \<times> tweet_medium list" where
  "tweet_entry e root folder_name media_files jf tid data mtime =
     (let user = str_or (or_str (sc_user_name data) (sc_user data)) ''Unknown'';
          txt = str_or (or_str (sc_text data) None) [];
          t_url = str_or (or_str (sc_url data) None)
                    (''https://twitter.com/'' @ user @ ''/status/'' @ tid);
          av_url = str_or (or_str (sc_avatar_url data) (sc_user_icon data)) [];
          t_media = map (\<lambda>mf. \<lparr>tm_tweet_id = tid, tm_file_path = path_join root mf,
                                 tm_media_type = m_type_of mf\<rparr>)
                        (media_map_for_tweets media_files tid)
      in (\<lparr>tw_id = tid, tw_timestamp = sidecar_ts e data, tw_user_name = user, tw_text = txt,
            tw_json_path = path_join root jf, tw_tweet_url = t_url, tw_avatar_url = av_url,
            tw_folder_name = folder_name, tw_file_mtime = mtime, tw_is_liked = 0\<rparr>,
          t_media))"

text \<open>
  One turn of the loop over \<open>json_files\<close> (lines 136 to 171), on the pair of
  \<open>tweet_buffer\<close> and \<open>used_media\<close>. A sidecar that does not load, or whose modification
  time cannot be read, is passed over with nothing marked.
\<close>

definition tweet_step ::
  "env \<Rightarrow> string \<Rightarrow> string \<Rightarrow> string list \<Rightarrow> string set \<Rightarrow> string
     \<Rightarrow> (tweet \<times> tweet_medium list) list \<times> string set
     \<Rightarrow> (tweet \<times> tweet_medium list) list \<times> string set" where
  "tweet_step e root folder_name media_files existing_tweets jf acc =
     (case acc of (tweet_buffer, used_media) \<Rightarrow>
        (case first_id_run jf of
           None \<Rightarrow> (tweet_buffer, used_media)
         | Some tid \<Rightarrow>
             if tid \<in> existing_tweets
             then (tweet_buffer, used_media \<union> set (media_map_for_tweets media_files tid))
             else (case load_json e (path_join root jf) of
                     None \<Rightarrow> (tweet_buffer, used_media)
                   | Some data \<Rightarrow>
                       (case getmtime_ms e (path_join root jf) of
                          None \<Rightarrow> (tweet_buffer, used_media)
                        | Some mtime \<Rightarrow>
                            (tweet_buffer
                               @ [tweet_entry e root folder_name media_files jf tid data mtime],
                             used_media \<union> set (media_map_for_tweets media_files tid))))))"

fun tweet_loop ::
  "env \<Rightarrow> string \<Rightarrow> string \<Rightarrow> string list \<Rightarrow> string set \<Rightarrow> string list
     \<Rightarrow> (tweet \<times> tweet_medium list) list \<times> string set
     \<Rightarrow> (tweet \<times> tweet_medium list) list \<times> string set" where
  "tweet_loop e root folder_name media_files existing_tweets [] acc = acc"
| "tweet_loop e root folder_name media_files existing_tweets (jf # jfs) acc =
     tweet_loop e root folder_name media_files existing_tweets jfs
       (tweet_step e root folder_name media_files existing_tweets jf acc)"

text \<open>The value of \<open>pixiv_buffer[wid]\<close>.\<close>

record bucket =
  b_title :: string
  b_author :: string
  b_timestamp :: int
  b_folder :: string
  b_pages :: "(nat \<times> string \<times> string) list"

text \<open>\<open>wid\<close> and \<open>p_num\<close> of a media file in an artwork folder (lines 181 to 189).\<close>

definition pixiv_wid :: "env \<Rightarrow> string \<Rightarrow> string \<Rightarrow> string \<times> nat" where
  "pixiv_wid e pixiv_author_id mf =
     (case pixiv_file_pattern mf of
        Some (wid, pg_str) \<Rightarrow>
          (wid, case pg_str of Some ds \<Rightarrow> nat_of_digits ds | None \<Rightarrow> 0)
      | None \<Rightarrow> (''folder_'' @ pixiv_author_id @ ''_'' @ take 8 (md5_hex e mf), 0))"

text \<open>The bucket of \<open>wid\<close> after one more page (lines 199 to 208).\<close>

definition add_page ::
  "string \<Rightarrow> string \<Rightarrow> string \<Rightarrow> int \<Rightarrow> nat \<times> string \<times> string \<Rightarrow> bucket option \<Rightarrow> bucket" where
  "add_page mf author_name folder_name mtime page old =
     (let b = (case old of
                 None \<Rightarrow> \<lparr>b_title = mf, b_author = author_name, b_timestamp = mtime,
                           b_folder = folder_name, b_pages = []\<rparr>
               | Some b0 \<Rightarrow> b0);
          b1 = (if b_timestamp b < mtime then b\<lparr>b_timestamp := mtime\<rparr> else b)
      in b1\<lparr>b_pages := b_pages b1 @ [page]\<rparr>)"

text \<open>
  One turn of the loop over \<open>media_files\<close> in an artwork folder (lines 178 to 209), on the
  pair of \<open>pixiv_buffer\<close> (a dictionary in insertion order) and \<open>used_media\<close>.
  \<open>os.path.getmtime\<close> is not guarded here: when it raises, the worker raises.
\<close>

definition pixiv_step ::
  "env \<Rightarrow> string \<Rightarrow> string \<Rightarrow> string \<Rightarrow> string \<Rightarrow> string set \<Rightarrow> string
     \<Rightarrow> (string \<times> bucket) list \<times> string set
     \<Rightarrow> py_error + (string \<times> bucket) list \<times> string set" where
  "pixiv_step e root folder_name pixiv_author_id author_name existing_pixiv mf acc =
     (case acc of (pixiv_buffer, used_media) \<Rightarrow>
        if mf \<in> used_media then Inr (pixiv_buffer, used_media)
        else (case pixiv_wid e pixiv_author_id mf of
                (wid, p_num) \<Rightarrow>
                  if wid \<in> existing_pixiv then Inr (pixiv_buffer, insert mf used_media)
                  else (case getmtime_ms e (path_join root mf) of
                          None \<Rightarrow> Inl OSError
                        | Some mtime \<Rightarrow>
                            Inr (AList.update wid
                                   (add_page mf author_name folder_name mtime
                                      (p_num, path_join root mf, m_type_of mf)
                                      (map_of pixiv_buffer wid))
                                   pixiv_buffer,
                                 insert mf used_media))))"

fun pixiv_loop ::
  "env \<Rightarrow> string \<Rightarrow> string \<Rightarrow> string \<Rightarrow> string \<Rightarrow> string set \<Rightarrow> string list
     \<Rightarrow> (string \<times> bucket) list \<times> string set
     \<Rightarrow> py_error + (string \<times> bucket) list \<times> string set" where
  "pixiv_loop e root folder_name pixiv_author_id author_name existing_pixiv [] acc = Inr acc"
| "pixiv_loop e root folder_name pixiv_author_id author_name existing_pixiv (mf # mfs) acc =
     (case pixiv_step e root folder_name pixiv_author_id author_name existing_pixiv mf acc of
        Inl err \<Rightarrow> Inl err
      | Inr acc' \<Rightarrow>
          pixiv_loop e root folder_name pixiv_author_id author_name existing_pixiv mfs acc')"

text \<open>
  One turn of the loop over the media files that are left (lines 212 to 223);
  \<open>os.path.getmtime\<close> is not guarded here either.
\<close>

definition other_step ::
  "env \<Rightarrow> string \<Rightarrow> string \<Rightarrow> string set \<Rightarrow> string set \<Rightarrow> string \<Rightarrow> other_work list
     \<Rightarrow> py_error + other_work list" where
  "other_step e root folder_name existing_others used_media mf other_buffer =
     (if mf \<in> used_media then Inr other_buffer
      else if md5_hex e (path_join root mf) \<in> existing_others then Inr other_buffer
      else (case getmtime_ms e (path_join root mf) of
              None \<Rightarrow> Inl OSError
            | Some mtime \<Rightarrow>
                Inr (other_buffer
                       @ [\<lparr>ow_id = md5_hex e (path_join root mf), ow_filename = mf,
                            ow_folder_name = folder_name, ow_file_path = path_join root mf,
                            ow_media_type = m_type_of mf, ow_file_mtime = mtime,
                            ow_is_liked = 0\<rparr>])))"

fun other_loop ::
  "env \<Rightarrow> string \<Rightarrow> string \<Rightarrow> string set \<Rightarrow> string set \<Rightarrow> string list \<Rightarrow> other_work list
     \<Rightarrow> py_error + other_work list" where
  "other_loop e root folder_name existing_others used_media [] other_buffer = Inr other_buffer"
| "other_loop e root folder_name existing_others used_media (mf # mfs) other_buffer =
     (case other_step e root folder_name existing_others used_media mf other_buffer of
        Inl err \<Rightarrow> Inl err
      | Inr other_buffer' \<Rightarrow>
          other_loop e root folder_name existing_others used_media mfs other_buffer')"

definition json_files_of :: "string list \<Rightarrow> string list" where
  "json_files_of files = filter is_json_file (filter (\<lambda>f. \<not> is_hidden f) files)"

definition media_files_of :: "string list \<Rightarrow> string list" where
  "media_files_of files =
     filter (\<lambda>f. \<not> is_json_file f \<and> has_media_ext f) (filter (\<lambda>f. \<not> is_hidden f) files)"

type_synonym worker_result =
  "(tweet \<times> tweet_medium list) list \<times> (string \<times> bucket) list \<times> other_work list"

definition scan_worker ::
  "env \<Rightarrow> string \<times> string list \<times> string set \<times> string set \<times> string set
     \<Rightarrow> py_error + worker_result" where
  "scan_worker e args =
     (case args of (root, files, existing_pixiv, existing_tweets, existing_others) \<Rightarrow>
        (let folder_name = basename root;
             media_files = media_files_of files;
             json_files = json_files_of files;
             (tweet_buffer, used1) =
               tweet_loop e root folder_name media_files existing_tweets json_files ([], {})
         in case (case pixiv_folder_match folder_name of
                    None \<Rightarrow> Inr ([], used1)
                  | Some pixiv_author_id \<Rightarrow>
                      pixiv_loop e root folder_name pixiv_author_id (author_name_of folder_name)
                        existing_pixiv media_files ([], used1)) of
              Inl err \<Rightarrow> Inl err
            | Inr (pixiv_buffer, used2) \<Rightarrow>
                (case other_loop e root folder_name existing_others used2 media_files [] of
                   Inl err \<Rightarrow> Inl err
                 | Inr other_buffer \<Rightarrow> Inr (tweet_buffer, pixiv_buffer, other_buffer))))"

section \<open>\<open>run_scan\<close>\<close>

text \<open>
  \<open>INSERT OR IGNORE\<close> into a table whose \<open>id\<close> is the primary key: a row whose id the
  table holds is dropped. \<open>pixiv_pages\<close> and \<open>tweet_media\<close> have no key, every row is added.
\<close>

fun insert_or_ignore :: "('r \<Rightarrow> string) \<Rightarrow> 'r list \<Rightarrow> 'r list \<Rightarrow> 'r list" where
  "insert_or_ignore key tbl [] = tbl"
| "insert_or_ignore key tbl (r # rs) =
     insert_or_ignore key (if key r \<in> set (map key tbl) then tbl else tbl @ [r]) rs"

text \<open>
  Lines 278 to 281: \<open>data["pages"].sort(key=lambda x: x[0])\<close> (Python's sort is stable) and
  the renumbering by \<open>enumerate\<close>.
\<close>

definition finalize_pages :: "string \<Rightarrow> (nat \<times> string \<times> string) list \<Rightarrow> pixiv_page list" where
  "finalize_pages wid pages =
     map (\<lambda>(i, (p_num, path, mtype)).
            \<lparr>pp_work_id = wid, pp_page_num = i, pp_file_path = path, pp_media_type = mtype\<rparr>)
         (enumerate 0 (sort_key fst pages))"

text \<open>Line 282: the row of \<open>pixiv_works\<close>.\<close>

definition work_row :: "string \<Rightarrow> bucket \<Rightarrow> pixiv_work" where
  "work_row wid data =
     \<lparr>pw_id = wid, pw_title = b_title data, pw_author = b_author data,
      pw_timestamp = b_timestamp data,
      pw_total_pages = length (finalize_pages wid (b_pages data)), pw_is_liked = 0,
      pw_folder_name = b_folder data, pw_file_mtime = b_timestamp data\<rparr>"

datatype scan_msg =
    MsgEmpty
  | MsgFolders nat
  | MsgProgress nat nat nat
  | MsgComplete nat nat nat nat
  | MsgError py_error

text \<open>
  The variables of the aggregation loop: the connection's view of the store, the five
  write buffers, \<open>new_cnt\<close> and the status message.
\<close>

record scan_state =
  conn :: store
  b_pix_w :: "pixiv_work list"
  b_pix_p :: "pixiv_page list"
  b_tweets :: "tweet list"
  b_tweet_m :: "tweet_medium list"
  b_others :: "other_work list"
  cnt_t :: nat
  cnt_p :: nat
  cnt_o :: nat
  status :: scan_msg

definition BATCH :: nat where
  "BATCH = 200"

definition write_tweets :: "tweet list \<Rightarrow> tweet_medium list \<Rightarrow> store \<Rightarrow> store" where
  "write_tweets ts ms d =
     d\<lparr>tweets := insert_or_ignore tw_id (tweets d) ts, tweet_media := tweet_media d @ ms\<rparr>"

definition write_pixiv :: "pixiv_work list \<Rightarrow> pixiv_page list \<Rightarrow> store \<Rightarrow> store" where
  "write_pixiv ws ps d =
     d\<lparr>pixiv_works := insert_or_ignore pw_id (pixiv_works d) ws,
       pixiv_pages := pixiv_pages d @ ps\<rparr>"

definition write_others :: "other_work list \<Rightarrow> store \<Rightarrow> store" where
  "write_others os d = d\<lparr>other_works := insert_or_ignore ow_id (other_works d) os\<rparr>"

text \<open>
  One turn of the loop over the completed futures (lines 268 to 307), in its four parts:
  the result of the task is taken into the buffers and counters (lines 272 to 287), a
  buffer that has reached \<open>BATCH\<close> rows is written and emptied (lines 289 to 301), and
  the status message is renewed (lines 303 and 304). A task that raised is logged and
  leaves the state as it was.
\<close>

definition absorb :: "scan_state \<Rightarrow> worker_result \<Rightarrow> scan_state" where
  "absorb s res =
     (case res of (t_buf, p_buf, o_buf) \<Rightarrow>
        s\<lparr>b_tweets := b_tweets s @ map fst t_buf,
          b_tweet_m := b_tweet_m s @ concat (map snd t_buf),
          cnt_t := cnt_t s + length t_buf,
          b_pix_w := b_pix_w s @ map (\<lambda>(wid, data). work_row wid data) p_buf,
          b_pix_p := b_pix_p s
            @ concat (map (\<lambda>(wid, data). finalize_pages wid (b_pages data)) p_buf),
          cnt_p := cnt_p s + length p_buf,
          b_others := b_others s @ o_buf,
          cnt_o := cnt_o s + length o_buf\<rparr>)"

definition flush_tweets :: "scan_state \<Rightarrow> scan_state" where
  "flush_tweets s =
     (if BATCH \<le> length (b_tweets s)
      then s\<lparr>conn := write_tweets (b_tweets s) (b_tweet_m s) (conn s),
             b_tweets := [], b_tweet_m := []\<rparr>
      else s)"

definition flush_pixiv :: "scan_state \<Rightarrow> scan_state" where
  "flush_pixiv s =
     (if BATCH \<le> length (b_pix_w s)
      then s\<lparr>conn := write_pixiv (b_pix_w s) (b_pix_p s) (conn s),
             b_pix_w := [], b_pix_p := []\<rparr>
      else s)"

definition flush_others :: "scan_state \<Rightarrow> scan_state" where
  "flush_others s =
     (if BATCH \<le> length (b_others s)
      then s\<lparr>conn := write_others (b_others s) (conn s), b_others := []\<rparr>
      else s)"

definition report_progress :: "scan_state \<Rightarrow> scan_state" where
  "report_progress s =
     (if (cnt_t s + cnt_p s + cnt_o s) mod 100 = 0
      then s\<lparr>status := MsgProgress (cnt_p s) (cnt_t s) (cnt_o s)\<rparr>
      else s)"

definition agg_step :: "scan_state \<Rightarrow> py_error + worker_result \<Rightarrow> scan_state" where
  "agg_step s fut =
     (case fut of
        Inl err \<Rightarrow> s
      | Inr res \<Rightarrow>
          report_progress (flush_others (flush_pixiv (flush_tweets (absorb s res)))))"

text \<open>Lines 309 to 316: what the buffers still hold is written.\<close>

definition final_flush :: "scan_state \<Rightarrow> store" where
  "final_flush s =
     (let d1 = (if b_tweets s \<noteq> [] then write_tweets (b_tweets s) (b_tweet_m s) (conn s)
                else conn s);
          d2 = (if b_pix_w s \<noteq> [] then write_pixiv (b_pix_w s) (b_pix_p s) d1 else d1)
      in if b_others s \<noteq> [] then write_others (b_others s) d2 else d2)"

text \<open>Lines 321 to 325: the \<open>DELETE FROM other_works\<close> of the clean-up.\<close>

definition claimed_path :: "store \<Rightarrow> string \<Rightarrow> bool" where
  "claimed_path d p =
     (p \<in> set (map pp_file_path (pixiv_pages d)) \<or> p \<in> set (map tm_file_path (tweet_media d)))"

definition cleanup_duplicates :: "store \<Rightarrow> store" where
  "cleanup_duplicates d =
     d\<lparr>other_works := filter (\<lambda>r. \<not> claimed_path d (ow_file_path r)) (other_works d)\<rparr>"

text \<open>Lines 249 to 253: the tasks, one per directory that \<open>os.walk\<close> yields.\<close>

definition hidden_part :: "string \<Rightarrow> bool" where
  "hidden_part p = (startswith p ''.'' \<and> 1 < length p)"

definition scan_tasks ::
  "env \<Rightarrow> string \<Rightarrow> string set \<Rightarrow> string set \<Rightarrow> string set
     \<Rightarrow> (string \<times> string list \<times> string set \<times> string set \<times> string set) list" where
  "scan_tasks e target_dir ex_pixiv ex_tweets ex_others =
     map (\<lambda>(root, files). (root, files, ex_pixiv, ex_tweets, ex_others))
       (filter (\<lambda>(root, files). files \<noteq> [] \<and> \<not> list_ex hidden_part (split_sep root))
          (walk e target_dir))"

text \<open>
  The futures in the order \<open>as_completed\<close> yields them: the environment gives the indices
  of the tasks in completion order.
\<close>

definition completed_futures :: "env \<Rightarrow> 'a list \<Rightarrow> 'a list" where
  "completed_futures e futures =
     map (\<lambda>i. futures ! i) (filter (\<lambda>i. i < length futures) (as_completed e (length futures)))"

text \<open>
  The body of the \<open>try\<close> of \<open>run_scan\<close> (lines 239 to 331): the store it leaves and either
  the exception that ended it or the final message.
\<close>

definition scan_body :: "env \<Rightarrow> store \<Rightarrow> string \<Rightarrow> store \<times> (py_error + scan_msg)" where
  "scan_body e d target_dir =
     (if \<not> db_available e then (d, Inl OperationalError)
      else
        (let ex_pixiv = set (map pw_id (pixiv_works d));
             ex_tweets = set (map tw_id (tweets d));
             ex_others = set (map ow_id (other_works d));
             tasks = scan_tasks e target_dir ex_pixiv ex_tweets ex_others;
             futures = map (scan_worker e) tasks;
             s0 = \<lparr>conn = d, b_pix_w = [], b_pix_p = [], b_tweets = [], b_tweet_m = [],
                   b_others = [], cnt_t = 0, cnt_p = 0, cnt_o = 0,
                   status = MsgFolders (length tasks)\<rparr>;
             s = foldl agg_step s0 (completed_futures e futures);
             d1 = final_flush s;
             d2 = cleanup_duplicates d1;
             deleted_count = length (other_works d1) - length (other_works d2)
         in (d2, Inr (MsgComplete (cnt_p s) (cnt_t s) (cnt_o s) deleted_count))))"

text \<open>The globals \<open>is_scanning\<close> and \<open>scan_status_msg\<close>, and the database file.\<close>

record sys =
  is_scanning :: bool
  scan_status_msg :: scan_msg
  db :: store

text \<open>Lines 232 to 234, under \<open>scan_lock\<close>: \<open>None\<close> is the early return.\<close>

definition scan_enter :: "sys \<Rightarrow> sys option" where
  "scan_enter st = (if is_scanning st then None else Some (st\<lparr>is_scanning := True\<rparr>))"

text \<open>
  The end of a pass: the message of line 330 or of the \<open>except\<close> clause (line 334), then
  the \<open>finally\<close> clause (line 337).
\<close>

definition scan_leave :: "sys \<Rightarrow> store \<times> (py_error + scan_msg) \<Rightarrow> sys" where
  "scan_leave st res =
     (case res of (d, outcome) \<Rightarrow>
        st\<lparr>db := d,
           scan_status_msg := (case outcome of Inl err \<Rightarrow> MsgError err | Inr m \<Rightarrow> m),
           is_scanning := False\<rparr>)"

definition run_scan :: "env \<Rightarrow> sys \<Rightarrow> string \<Rightarrow> sys" where
  "run_scan e st target_dir =
     (case scan_enter st of
        None \<Rightarrow> st
      | Some st1 \<Rightarrow> scan_leave st1 (scan_body e (db st1) target_dir))"

text \<open>\<open>toggle_like\<close> (lines 396 to 404): the store after the \<open>UPDATE\<close> and the response.\<close>

definition toggle_like :: "store \<Rightarrow> string \<Rightarrow> string \<Rightarrow> bool \<Rightarrow> store \<times> string" where
  "toggle_like d type_s id_s liked =
     (let val = (if liked then 1 else 0);
          table = (if type_s = ''pixiv'' then ''pixiv_works''
                   else if type_s = ''tweet'' then ''tweets'' else ''other_works'')
      in (if table = ''pixiv_works''
          then d\<lparr>pixiv_works :=
                   map (\<lambda>r. if pw_id r = id_s then r\<lparr>pw_is_liked := val\<rparr> else r) (pixiv_works d)\<rparr>
          else if table = ''tweets''
          then d\<lparr>tweets :=
                   map (\<lambda>r. if tw_id r = id_s then r\<lparr>tw_is_liked := val\<rparr> else r) (tweets d)\<rparr>
          else d\<lparr>other_works :=
                   map (\<lambda>r. if ow_id r = id_s then r\<lparr>ow_is_liked := val\<rparr> else r)
                     (other_works d)\<rparr>,
          ''ok''))"

section \<open>\<open>get_stream\<close>\<close>

text \<open>
  The parameters of the request. The numbers are Python integers, without a bound; a
  request whose limit, offset or anchor does not fit the 64-bit integers of SQLite makes
  the driver raise while it binds them, and no response is built: \<open>get_stream\<close> below is
  the response of a request the driver accepts.
\<close>

record stream_req =
  rq_limit :: int
  rq_offset :: int
  rq_source :: string
  rq_q :: "string option"
  rq_sort :: string
  rq_folder :: "string option"
  rq_filter_type :: string
  rq_target_date :: "int option"
  rq_direction :: string

text \<open>A row of one of the three queried tables, and the columns the queries read.\<close>

datatype sqlrow = RWork pixiv_work | RTweet tweet | ROther other_work

definition table_rows :: "store \<Rightarrow> string \<Rightarrow> sqlrow list" where
  "table_rows d table =
     (if table = ''pixiv_works'' then map RWork (pixiv_works d)
      else if table = ''tweets'' then map RTweet (tweets d)
      else if table = ''other_works'' then map ROther (other_works d)
      else [])"

fun col_id :: "sqlrow \<Rightarrow> string" where
  "col_id (RWork r) = pw_id r"
| "col_id (RTweet r) = tw_id r"
| "col_id (ROther r) = ow_id r"

fun col_file_mtime :: "sqlrow \<Rightarrow> int" where
  "col_file_mtime (RWork r) = pw_file_mtime r"
| "col_file_mtime (RTweet r) = tw_file_mtime r"
| "col_file_mtime (ROther r) = ow_file_mtime r"

fun col_folder_name :: "sqlrow \<Rightarrow> string" where
  "col_folder_name (RWork r) = pw_folder_name r"
| "col_folder_name (RTweet r) = tw_folder_name r"
| "col_folder_name (ROther r) = ow_folder_name r"

fun col_is_liked :: "sqlrow \<Rightarrow> int" where
  "col_is_liked (RWork r) = pw_is_liked r"
| "col_is_liked (RTweet r) = tw_is_liked r"
| "col_is_liked (ROther r) = ow_is_liked r"

text \<open>The text columns the query \<open>q\<close> is matched against, per table (lines 481 to 483).\<close>

fun q_columns :: "sqlrow \<Rightarrow> string list" where
  "q_columns (RWork r) = [pw_title r, pw_author r]"
| "q_columns (RTweet r) = [tw_text r, tw_user_name r]"
| "q_columns (ROther r) = [ow_filename r]"

text \<open>
  SQLite's \<open>LIKE\<close>: \<open>%\<close> stands for any run of characters, \<open>_\<close> for one character, and
  ASCII letters match without regard to case.
\<close>

fun sql_like :: "string \<Rightarrow> string \<Rightarrow> bool" where
  "sql_like [] s = (s = [])"
| "sql_like (p # ps) [] = (p = CHR ''%'' \<and> sql_like ps [])"
| "sql_like (p # ps) (c # cs) =
     (if p = CHR ''%'' then sql_like ps (c # cs) \<or> sql_like (p # ps) cs
      else (p = CHR ''_'' \<or> lower_char p = lower_char c) \<and> sql_like ps cs)"

definition sql_compare :: "string \<Rightarrow> int \<Rightarrow> int \<Rightarrow> bool" where
  "sql_compare op a b =
     (if op = ''<='' then a \<le> b
      else if op = ''>'' then b < a
      else if op = ''>='' then b \<le> a
      else if op = ''<'' then a < b
      else False)"

text \<open>
  Lines 437 to 468 of \<open>fetch_ids\<close>: \<open>op\<close> and \<open>order_s\<close> from the sort mode and the fetch
  direction. The first two assignments are overwritten in every branch.
\<close>

definition op_and_order :: "string \<Rightarrow> string \<Rightarrow> string \<times> string" where
  "op_and_order sort_mode fetch_dir =
     (let op0 = (if fetch_dir = ''older'' then ''<='' else ''>'');
          order0 = (if fetch_dir = ''older'' then ''DESC'' else ''ASC'')
      in if sort_mode = ''asc''
         then (if fetch_dir = ''older'' then (''>='', ''ASC'') else (''<'', ''DESC''))
         else (if fetch_dir = ''older'' then (''<='', ''DESC'') else (''>'', ''ASC'')))"

text \<open>
  \<open>build_query\<close> (lines 472 to 503) as the predicate of its \<open>WHERE\<close> clause on a row of
  \<open>table\<close>: the conjunction of the conditions the source appends.
\<close>

definition where_folder :: "stream_req \<Rightarrow> sqlrow \<Rightarrow> bool" where
  "where_folder rq r =
     (case rq_folder rq of
        None \<Rightarrow> True
      | Some f \<Rightarrow> (if f \<noteq> [] \<and> f \<noteq> ''ALL'' then col_folder_name r = f else True))"

definition where_q :: "stream_req \<Rightarrow> string \<Rightarrow> sqlrow \<Rightarrow> bool" where
  "where_q rq table r =
     (case rq_q rq of
        None \<Rightarrow> True
      | Some qs \<Rightarrow>
          (if qs = [] then True
           else if table = ''pixiv_works'' \<or> table = ''tweets'' \<or> table = ''other_works''
           then list_ex (sql_like (''%'' @ qs @ ''%'')) (q_columns r)
           else True))"

definition has_media :: "store \<Rightarrow> string \<Rightarrow> bool" where
  "has_media d tid = list_ex (\<lambda>m. tm_tweet_id m = tid) (tweet_media d)"

definition has_video_media :: "store \<Rightarrow> string \<Rightarrow> bool" where
  "has_video_media d tid =
     list_ex (\<lambda>m. tm_tweet_id m = tid \<and> tm_media_type m = ''video'') (tweet_media d)"

definition has_video_page :: "store \<Rightarrow> string \<Rightarrow> bool" where
  "has_video_page d wid =
     list_ex (\<lambda>p. pp_work_id p = wid \<and> pp_media_type p = ''video'') (pixiv_pages d)"

fun col_media_type :: "sqlrow \<Rightarrow> string" where
  "col_media_type (ROther r) = ow_media_type r"
| "col_media_type (RWork r) = []"
| "col_media_type (RTweet r) = []"

definition where_filter :: "store \<Rightarrow> stream_req \<Rightarrow> string \<Rightarrow> sqlrow \<Rightarrow> bool" where
  "where_filter d rq table r =
     (let filter_type = rq_filter_type rq in
      if filter_type = ''liked'' then col_is_liked r = 1
      else if filter_type = ''text''
      then (if table \<noteq> ''tweets'' then False else \<not> has_media d (col_id r))
      else if filter_type = ''video''
      then (if table = ''pixiv_works'' then has_video_page d (col_id r)
            else if table = ''tweets'' then has_video_media d (col_id r)
            else if table = ''other_works'' then col_media_type r = ''video''
            else True)
      else if filter_type = ''image''
      then (if table = ''pixiv_works'' then \<not> has_video_page d (col_id r)
            else if table = ''tweets''
            then has_media d (col_id r) \<and> \<not> has_video_media d (col_id r)
            else if table = ''other_works'' then col_media_type r = ''image''
            else True)
      else True)"

definition where_target :: "string \<Rightarrow> int option \<Rightarrow> sqlrow \<Rightarrow> bool" where
  "where_target op fetch_target r =
     (case fetch_target of
        None \<Rightarrow> True
      | Some t \<Rightarrow> sql_compare op (col_file_mtime r) t)"

definition build_query ::
  "store \<Rightarrow> stream_req \<Rightarrow> string \<Rightarrow> int option \<Rightarrow> string \<Rightarrow> sqlrow \<Rightarrow> bool" where
  "build_query d rq op fetch_target table r =
     (where_folder rq r \<and> where_q rq table r \<and> where_filter d rq table r
      \<and> where_target op fetch_target r)"

text \<open>
  \<open>ORDER BY sort_key {order_s} LIMIT ?\<close>. Rows with equal keys come in table order (SQL
  leaves their order open); a negative \<open>LIMIT\<close> is no limit in SQLite.
\<close>

definition sql_order_by :: "string \<Rightarrow> sqlrow list \<Rightarrow> sqlrow list" where
  "sql_order_by order_s rows =
     (if order_s = ''DESC'' then sort_key (\<lambda>r. - col_file_mtime r) rows
      else sort_key col_file_mtime rows)"

definition sql_limit :: "int \<Rightarrow> 'a list \<Rightarrow> 'a list" where
  "sql_limit k rows = (if k < 0 then rows else take (nat k) rows)"

text \<open>\<open>results.sort(key=lambda x: x[2], reverse=reverse)\<close>: stable in both directions.\<close>

definition sort_results ::
  "bool \<Rightarrow> (string \<times> string \<times> int) list \<Rightarrow> (string \<times> string \<times> int) list" where
  "sort_results reverse results =
     (if reverse then sort_key (\<lambda>x. - snd (snd x)) results
      else sort_key (\<lambda>x. snd (snd x)) results)"

text \<open>Python's \<open>xs[a:b]\<close>, negative indices counted from the end.\<close>

definition py_index :: "nat \<Rightarrow> int \<Rightarrow> nat" where
  "py_index n i = (if i < 0 then nat (int n + i) else min n (nat i))"

definition py_slice :: "'a list \<Rightarrow> int \<Rightarrow> int \<Rightarrow> 'a list" where
  "py_slice xs a b =
     take (py_index (length xs) b - py_index (length xs) a) (drop (py_index (length xs) a) xs)"

text \<open>Lines 506 to 509: the tables the source selects, with their type labels.\<close>

definition tables_of :: "string \<Rightarrow> (string \<times> string) list" where
  "tables_of src =
     (if src = ''all'' \<or> src = ''pixiv'' then [(''pixiv_works'', ''pixiv'')] else [])
     @ (if src = ''all'' \<or> src = ''tweets'' then [(''tweets'', ''tweet'')] else [])
     @ (if src = ''all'' \<or> src = ''others'' then [(''other_works'', ''other'')] else [])"

text \<open>Lines 511 to 514: the triples one table contributes.\<close>

definition table_results ::
  "store \<Rightarrow> stream_req \<Rightarrow> string \<Rightarrow> string \<Rightarrow> int \<Rightarrow> int option \<Rightarrow> string \<times> string
     \<Rightarrow> (string \<times> string \<times> int) list" where
  "table_results d rq op order_s fetch_limit fetch_target tt =
     (case tt of (t_name, t_type) \<Rightarrow>
        map (\<lambda>r. (t_type, col_id r, col_file_mtime r))
          (sql_limit (fetch_limit + rq_offset rq)
             (sql_order_by order_s
                (filter (build_query d rq op fetch_target t_name) (table_rows d t_name)))))"

definition fetch_ids ::
  "store \<Rightarrow> stream_req \<Rightarrow> string \<Rightarrow> int \<Rightarrow> int option \<Rightarrow> (string \<times> string \<times> int) list" where
  "fetch_ids d rq fetch_dir fetch_limit fetch_target =
     (case op_and_order (rq_sort rq) fetch_dir of (op, order_s) \<Rightarrow>
        (let results = concat (map (table_results d rq op order_s fetch_limit fetch_target)
                                 (tables_of (rq_source rq)))
         in py_slice (sort_results (order_s = ''DESC'') results)
              (rq_offset rq) (rq_offset rq + fetch_limit)))"

text \<open>Lines 524 to 546: the main logic of \<open>get_stream\<close>.\<close>

definition final_ids :: "store \<Rightarrow> stream_req \<Rightarrow> (string \<times> string \<times> int) list" where
  "final_ids d rq =
     (if rq_direction rq = ''around'' \<and> rq_target_date rq \<noteq> None
      then (let half = rq_limit rq div 2;
                newer_list = fetch_ids d rq ''newer'' half (rq_target_date rq);
                older_list = fetch_ids d rq ''older'' half (rq_target_date rq)
            in if rq_sort rq = ''desc'' then rev newer_list @ older_list
               else newer_list @ rev older_list)
      else if rq_direction rq = ''newer''
      then (let ids = fetch_ids d rq ''newer'' (rq_limit rq) (rq_target_date rq)
            in if rq_sort rq = ''desc'' then rev ids else ids)
      else fetch_ids d rq ''older'' (rq_limit rq) (rq_target_date rq))"

text \<open>
  A hydrated record (lines 548 to 579): the keys every family has, its media, and the
  other string-valued keys as a dictionary. The URL of a path (\<open>to_url\<close>, which reads the
  configuration and quotes the relative path) is a parameter. \<open>fetchone\<close> is the first
  row with the id; pages with equal \<open>page_num\<close> come in table order under
  \<open>ORDER BY page_num\<close>.
\<close>

record media_entry =
  me_url :: string
  me_type :: string
  me_index :: "nat option"

record stream_item =
  it_type :: string
  it_id :: string
  it_timestamp :: int
  it_is_liked :: bool
  it_folder :: string
  it_media :: "media_entry list"
  it_fields :: "(string \<times> string) list"

definition hydrate ::
  "(string \<Rightarrow> string) \<Rightarrow> store \<Rightarrow> string \<times> string \<times> int \<Rightarrow> stream_item list" where
  "hydrate to_url d x =
     (case x of (r_type, r_id, mtime) \<Rightarrow>
        if r_type = ''pixiv''
        then (case find (\<lambda>r. pw_id r = r_id) (pixiv_works d) of
                None \<Rightarrow> []
              | Some row \<Rightarrow>
                  [\<lparr>it_type = ''pixiv'', it_id = pw_id row, it_timestamp = pw_file_mtime row,
                    it_is_liked = (pw_is_liked row \<noteq> 0), it_folder = pw_folder_name row,
                    it_media =
                      map (\<lambda>p. \<lparr>me_url = to_url (pp_file_path p), me_type = pp_media_type p,
                                 me_index = Some (pp_page_num p)\<rparr>)
                        (sort_key pp_page_num
                           (filter (\<lambda>p. pp_work_id p = r_id) (pixiv_pages d))),
                    it_fields =
                      [(''title'', pw_title row), (''author'', pw_author row),
                       (''pixiv_url'', ''https://www.pixiv.net/artworks/'' @ pw_id row)]\<rparr>])
        else if r_type = ''tweet''
        then (case find (\<lambda>r. tw_id r = r_id) (tweets d) of
                None \<Rightarrow> []
              | Some row \<Rightarrow>
                  [\<lparr>it_type = ''tweet'', it_id = tw_id row, it_timestamp = tw_file_mtime row,
                    it_is_liked = (tw_is_liked row \<noteq> 0), it_folder = tw_folder_name row,
                    it_media =
                      map (\<lambda>m. \<lparr>me_url = to_url (tm_file_path m), me_type = tm_media_type m,
                                 me_index = None\<rparr>)
                        (filter (\<lambda>m. tm_tweet_id m = r_id) (tweet_media d)),
                    it_fields =
                      [(''user_name'', tw_user_name row), (''text'', tw_text row),
                       (''tweet_url'', tw_tweet_url row),
                       (''avatar_url'', tw_avatar_url row)]\<rparr>])
        else if r_type = ''other''
        then (case find (\<lambda>r. ow_id r = r_id) (other_works d) of
                None \<Rightarrow> []
              | Some row \<Rightarrow>
                  [\<lparr>it_type = ''other'', it_id = ow_id row, it_timestamp = ow_file_mtime row,
                    it_is_liked = (ow_is_liked row \<noteq> 0), it_folder = ow_folder_name row,
                    it_media =
                      [\<lparr>me_url = to_url (ow_file_path row), me_type = ow_media_type row,
                        me_index = None\<rparr>],
                    it_fields = [(''title'', ow_filename row)]\<rparr>])
        else [])"

definition get_stream :: "(string \<Rightarrow> string) \<Rightarrow> store \<Rightarrow> stream_req \<Rightarrow> stream_item list" where
  "get_stream to_url d rq = concat (map (hydrate to_url d) (final_ids d rq))"

section \<open>Concurrent scan requests\<close>







section \<open>Invariants of the loops of \<open>scan_worker\<close>\<close>

definition from_media :: "string \<Rightarrow> string list \<Rightarrow> string \<Rightarrow> string \<Rightarrow> bool" where
  "from_media root mfs path ty = (\<exists>f \<in> set mfs. path = path_join root f \<and> ty = m_type_of f)"

definition tweets_from_media ::
  "string \<Rightarrow> string list \<Rightarrow> (tweet \<times> tweet_medium list) list \<Rightarrow> bool" where
  "tweets_from_media root mfs buf =
     (\<forall>x \<in> set buf. \<forall>m \<in> set (snd x). from_media root mfs (tm_file_path m) (tm_media_type m))"

definition pages_from_media ::
  "string \<Rightarrow> string list \<Rightarrow> string set \<Rightarrow> (nat \<times> string \<times> string) list \<Rightarrow> bool" where
  "pages_from_media root mfs used0 pages =
     (pages \<noteq> [] \<and>
      (\<forall>pg \<in> set pages. \<exists>f \<in> set mfs. f \<notin> used0 \<and> fst (snd pg) = path_join root f
                              \<and> snd (snd pg) = m_type_of f))"

definition pix_inv ::
  "string \<Rightarrow> string list \<Rightarrow> string set \<Rightarrow> (string \<times> bucket) list \<times> string set \<Rightarrow> bool" where
  "pix_inv root mfs used0 acc =
     (used0 \<subseteq> snd acc \<and> (\<forall>x \<in> set (fst acc). pages_from_media root mfs used0 (b_pages (snd x))))"

definition other_inv ::
  "env \<Rightarrow> string \<Rightarrow> string list \<Rightarrow> string set \<Rightarrow> string set \<Rightarrow> other_work list \<Rightarrow> bool" where
  "other_inv e root mfs exo used ob =
     (\<forall>r \<in> set ob. ow_filename r \<in> set mfs \<and> ow_filename r \<notin> used
        \<and> ow_file_path r = path_join root (ow_filename r)
        \<and> ow_media_type r = m_type_of (ow_filename r)
        \<and> ow_id r = md5_hex e (ow_file_path r) \<and> ow_id r \<notin> exo)"

section \<open>Invariants of the store\<close>

text \<open>
  The primary keys of the three record tables, the two kinds of a medium, and a page for
  every work.
\<close>

definition ids_distinct :: "store \<Rightarrow> bool" where
  "ids_distinct d =
     (distinct (map pw_id (pixiv_works d)) \<and> distinct (map tw_id (tweets d))
      \<and> distinct (map ow_id (other_works d)))"

definition kind_ok :: "string \<Rightarrow> bool" where
  "kind_ok k = (k = ''image'' \<or> k = ''video'')"

definition kinds_ok :: "store \<Rightarrow> bool" where
  "kinds_ok d =
     (list_all (\<lambda>p. kind_ok (pp_media_type p)) (pixiv_pages d)
      \<and> list_all (\<lambda>m. kind_ok (tm_media_type m)) (tweet_media d))"

definition has_page :: "pixiv_page list \<Rightarrow> pixiv_work \<Rightarrow> bool" where
  "has_page ps w = list_ex (\<lambda>p. pp_work_id p = pw_id w) ps"

definition works_have_pages :: "store \<Rightarrow> bool" where
  "works_have_pages d = list_all (has_page (pixiv_pages d)) (pixiv_works d)"

definition store_inv :: "store \<Rightarrow> bool" where
  "store_inv d = (ids_distinct d \<and> kinds_ok d \<and> works_have_pages d)"

text \<open>The same for the buffers of a pass, and for the result of a task.\<close>

definition agg_inv :: "scan_state \<Rightarrow> bool" where
  "agg_inv s =
     (store_inv (conn s)
      \<and> list_all (has_page (b_pix_p s)) (b_pix_w s)
      \<and> list_all (\<lambda>p. kind_ok (pp_media_type p)) (b_pix_p s)
      \<and> list_all (\<lambda>m. kind_ok (tm_media_type m)) (b_tweet_m s))"

definition good_result :: "py_error + worker_result \<Rightarrow> bool" where
  "good_result fut =
     (case fut of
        Inl err \<Rightarrow> True
      | Inr (t_buf, p_buf, o_buf) \<Rightarrow>
          list_all (\<lambda>x. list_all (\<lambda>m. kind_ok (tm_media_type m)) (snd x)) t_buf
          \<and> list_all (\<lambda>x. b_pages (snd x) \<noteq> []
                            \<and> list_all (\<lambda>pg. kind_ok (snd (snd pg))) (b_pages (snd x))) p_buf)"

text \<open>
  The stores the program produces: the empty database, then passes of \<open>run_scan\<close> and
  calls of \<open>toggle_like\<close>.
\<close>

inductive reachable_store :: "store \<Rightarrow> bool" where
  empty: "reachable_store empty_store"
| scanned: "reachable_store (db st) \<Longrightarrow> reachable_store (db (run_scan e st target_dir))"
| liked: "reachable_store d \<Longrightarrow> reachable_store (fst (toggle_like d type_s id_s liked))"

section \<open>The rows a query selects\<close>

text \<open>Every triple \<open>fetch_ids\<close> returns is a row of a selected table that passes its query.\<close>

definition selected ::
  "store \<Rightarrow> stream_req \<Rightarrow> string \<Rightarrow> int option \<Rightarrow> string \<times> string \<times> int \<Rightarrow> bool" where
  "selected d rq op fetch_target x =
     (\<exists>tt \<in> set (tables_of (rq_source rq)). \<exists>r \<in> set (table_rows d (fst tt)).
        build_query d rq op fetch_target (fst tt) r
        \<and> x = (snd tt, col_id r, col_file_mtime r))"

text \<open>What the content filters \<open>video\<close> and \<open>image\<close> promise of a returned record.\<close>

definition video_ok :: "stream_item \<Rightarrow> bool" where
  "video_ok it = list_ex (\<lambda>m. me_type m = ''video'') (it_media it)"

definition image_ok :: "stream_item \<Rightarrow> bool" where
  "image_ok it =
     (list_ex (\<lambda>m. me_type m = ''image'') (it_media it)
      \<and> (if it_type it = ''tweet''
         then it_media it \<noteq> [] \<and> list_all (\<lambda>m. me_type m \<noteq> ''video'') (it_media it)
         else True))"

text \<open>Family, id and timestamp of a returned record.\<close>

definition triple :: "stream_item \<Rightarrow> string \<times> string \<times> int" where
  "triple it = (it_type it, it_id it, it_timestamp it)"

section \<open>What a sidecar does to a pass\<close>

text \<open>
  A sidecar loads when \<open>json.load\<close> and \<open>os.path.getmtime\<close> both succeed on it. With the
  snapshot \<open>ex\<close> of post ids, a sidecar whose id is \<open>tid\<close> creates a post when the id is new
  and it loads, and it marks the media of \<open>tid\<close> as used when the id is in the snapshot or
  it loads.
\<close>

definition loads :: "env \<Rightarrow> string \<Rightarrow> string \<Rightarrow> bool" where
  "loads e root jf =
     (load_json e (path_join root jf) \<noteq> None \<and> getmtime_ms e (path_join root jf) \<noteq> None)"

definition creates :: "env \<Rightarrow> string \<Rightarrow> string set \<Rightarrow> string \<Rightarrow> string \<Rightarrow> bool" where
  "creates e root ex jf tid = (first_id_run jf = Some tid \<and> tid \<notin> ex \<and> loads e root jf)"

definition marks :: "env \<Rightarrow> string \<Rightarrow> string set \<Rightarrow> string \<Rightarrow> string \<Rightarrow> bool" where
  "marks e root ex jf tid = (first_id_run jf = Some tid \<and> (tid \<in> ex \<or> loads e root jf))"

text \<open>The id of an unclassified row is the hash of its path.\<close>

definition hashed :: "env \<Rightarrow> other_work \<Rightarrow> bool" where
  "hashed e r = (ow_id r = md5_hex e (ow_file_path r))"

text \<open>
  For one directory and the snapshots of a pass: the ids of the posts its sidecars create,
  the media files its sidecars mark as used, and the ids of the works its worker creates.
\<close>

definition new_post_ids :: "env \<Rightarrow> string \<Rightarrow> string list \<Rightarrow> string set \<Rightarrow> string set" where
  "new_post_ids e root files ex =
     {tid. \<exists>jf \<in> set (json_files_of files). creates e root ex jf tid}"

definition used_by_posts :: "env \<Rightarrow> string \<Rightarrow> string list \<Rightarrow> string set \<Rightarrow> string set" where
  "used_by_posts e root files ex =
     {mf. \<exists>jf \<in> set (json_files_of files). \<exists>tid. marks e root ex jf tid
            \<and> mf \<in> set (media_map_for_tweets (media_files_of files) tid)}"

definition new_work_ids ::
  "env \<Rightarrow> string \<Rightarrow> string list \<Rightarrow> string set \<Rightarrow> string set \<Rightarrow> string set" where
  "new_work_ids e root files ex_t ex_p =
     (case pixiv_folder_match (basename root) of
        None \<Rightarrow> {}
      | Some aid \<Rightarrow>
          {fst (pixiv_wid e aid mf) | mf.
             mf \<in> set (media_files_of files) \<and> mf \<notin> used_by_posts e root files ex_t
             \<and> fst (pixiv_wid e aid mf) \<notin> ex_p})"

text \<open>
  The keys the aggregation loop of \<open>run_scan\<close> has seen so far, in the store or in a
  buffer that is still to be written, and what the result of one task brings to them.
\<close>

definition seen_posts :: "scan_state \<Rightarrow> string set" where
  "seen_posts s = tw_id ` set (tweets (conn s)) \<union> tw_id ` set (b_tweets s)"

definition seen_works :: "scan_state \<Rightarrow> string set" where
  "seen_works s = pw_id ` set (pixiv_works (conn s)) \<union> pw_id ` set (b_pix_w s)"

definition seen_others :: "scan_state \<Rightarrow> other_work set" where
  "seen_others s = set (other_works (conn s)) \<union> set (b_others s)"

definition posts_of :: "py_error + worker_result \<Rightarrow> string set" where
  "posts_of fut = (case fut of Inl err \<Rightarrow> {} | Inr (tb, pb, ob) \<Rightarrow> tw_id ` fst ` set tb)"

definition works_of :: "py_error + worker_result \<Rightarrow> string set" where
  "works_of fut = (case fut of Inl err \<Rightarrow> {} | Inr (tb, pb, ob) \<Rightarrow> fst ` set pb)"

definition others_of :: "py_error + worker_result \<Rightarrow> other_work set" where
  "others_of fut = (case fut of Inl err \<Rightarrow> {} | Inr (tb, pb, ob) \<Rightarrow> set ob)"

text \<open>
  A loop state that differs from the store \<open>d\<close> only by unclassified rows whose path a page
  or a medium of \<open>d\<close> already has: the rows the clean-up of lines 321 to 325 deletes.
\<close>

definition quiet :: "store \<Rightarrow> scan_state \<Rightarrow> bool" where
  "quiet d s =
     (b_tweets s = [] \<and> b_tweet_m s = [] \<and> b_pix_w s = [] \<and> b_pix_p s = []
      \<and> tweets (conn s) = tweets d \<and> tweet_media (conn s) = tweet_media d
      \<and> pixiv_works (conn s) = pixiv_works d \<and> pixiv_pages (conn s) = pixiv_pages d
      \<and> (\<exists>ys. other_works (conn s) = other_works d @ ys
               \<and> (\<forall>r \<in> set ys. claimed_path d (ow_file_path r)))
      \<and> (\<forall>r \<in> set (b_others s). claimed_path d (ow_file_path r)))"

text \<open>The directories that get a task (lines 249 to 253), without the snapshots.\<close>

definition scan_dirs :: "env \<Rightarrow> string \<Rightarrow> (string \<times> string list) list" where
  "scan_dirs e target_dir =
     filter (\<lambda>(root, files). files \<noteq> [] \<and> \<not> list_ex hidden_part (split_sep root))
       (walk e target_dir)"

section \<open>Example inputs\<close>

text \<open>Concrete stores, environments and requests on which the theorems below are run.\<close>

definition d_like :: store where
  "d_like = empty_store\<lparr>other_works :=
      [\<lparr>ow_id = ''a1'', ow_filename = ''x.png'', ow_folder_name = ''f'',
        ow_file_path = ''/t/f/x.png'', ow_media_type = ''image'', ow_file_mtime = 7,
        ow_is_liked = 0\<rparr>]\<rparr>"

definition sc_empty :: sidecar where
  "sc_empty = \<lparr>sc_timestamp = None, sc_saved_at = None, sc_user_name = None, sc_user = None,
     sc_text = None, sc_url = None, sc_avatar_url = None, sc_user_icon = None\<rparr>"

text \<open>
  A directory with a sidecar and its media file, scanned over a store in which the media
  file is still an unclassified row.
\<close>

definition e_claimed :: env where
  "e_claimed = \<lparr>walk = (\<lambda>t. [(''/t/f'', [''12345678901234.json'', ''m_12345678901234.jpg''])]),
     getmtime_ms = (\<lambda>p. Some 1000), load_json = (\<lambda>p. Some sc_empty), md5_hex = (\<lambda>s. s),
     parse_int = (\<lambda>s. None), db_available = True, as_completed = (\<lambda>n. [0..<n])\<rparr>"

definition st_claimed :: sys where
  "st_claimed = \<lparr>is_scanning = False, scan_status_msg = MsgEmpty,
     db = empty_store\<lparr>other_works :=
       [\<lparr>ow_id = ''/t/f/m_12345678901234.jpg'', ow_filename = ''m_12345678901234.jpg'',
         ow_folder_name = ''f'', ow_file_path = ''/t/f/m_12345678901234.jpg'',
         ow_media_type = ''image'', ow_file_mtime = 1000, ow_is_liked = 0\<rparr>]\<rparr>\<rparr>"


text \<open>A directory with a sidecar, its media file, a video, a text file and a hidden file.\<close>

definition e_kinds :: env where
  "e_kinds = \<lparr>walk = (\<lambda>t. []), getmtime_ms = (\<lambda>p. Some 1000), load_json = (\<lambda>p. Some sc_empty),
     md5_hex = (\<lambda>s. s), parse_int = (\<lambda>s. None), db_available = True,
     as_completed = (\<lambda>n. [0..<n])\<rparr>"

definition kinds_files :: "string list" where
  "kinds_files = [''20230101123456789.json'', ''photo_20230101123456789_1.jpg'', ''Clip.MP4'',
                  ''notes.txt'', ''.hidden.png'']"

definition kinds_tweets :: "(tweet \<times> tweet_medium list) list" where
  "kinds_tweets =
     [(\<lparr>tw_id = ''20230101123456789'', tw_timestamp = 0, tw_user_name = ''Unknown'',
        tw_text = [], tw_json_path = ''/t/x_123/20230101123456789.json'',
        tw_tweet_url = ''https://twitter.com/Unknown/status/20230101123456789'',
        tw_avatar_url = [], tw_folder_name = ''x_123'', tw_file_mtime = 1000, tw_is_liked = 0\<rparr>,
       [\<lparr>tm_tweet_id = ''20230101123456789'',
         tm_file_path = ''/t/x_123/photo_20230101123456789_1.jpg'',
         tm_media_type = ''image''\<rparr>])]"

definition kinds_pixiv :: "(string \<times> bucket) list" where
  "kinds_pixiv =
     [(''folder_123_Clip.MP4'',
       \<lparr>b_title = ''Clip.MP4'', b_author = ''x'', b_timestamp = 1000, b_folder = ''x_123'',
        b_pages = [(0, ''/t/x_123/Clip.MP4'', ''video'')]\<rparr>)]"




text \<open>A tree with two works, three posts and two other files, scanned into the empty store.\<close>

definition st_idle :: sys where
  "st_idle = \<lparr>is_scanning = False, scan_status_msg = MsgEmpty, db = empty_store\<rparr>"






text \<open>
  Nine unclassified files with the timestamps 1 to 9, scanned into the empty store, and an
  around request anchored at 5.
\<close>

definition e_nine :: env where
  "e_nine = \<lparr>walk = (\<lambda>t. [(''/t/o'', [''1.png'', ''2.png'', ''3.png'', ''4.png'', ''5.png'',
                                        ''6.png'', ''7.png'', ''8.png'', ''9.png''])]),
     getmtime_ms = (\<lambda>p. case drop 5 p of c # cs \<Rightarrow> Some (int (digit_val c)) | [] \<Rightarrow> None),
     load_json = (\<lambda>p. None), md5_hex = (\<lambda>s. s), parse_int = (\<lambda>s. None),
     db_available = True, as_completed = (\<lambda>n. [0..<n])\<rparr>"

definition d_nine :: store where
  "d_nine = db (run_scan e_nine st_idle ''/t'')"

definition rq_around :: "string \<Rightarrow> int \<Rightarrow> stream_req" where
  "rq_around sort_mode n = \<lparr>rq_limit = n, rq_offset = 0, rq_source = ''all'', rq_q = None,
     rq_sort = sort_mode, rq_folder = None, rq_filter_type = ''all'', rq_target_date = Some 5,
     rq_direction = ''around''\<rparr>"

text \<open>
  Two artwork folders: \<open>A_123\<close> holds page 0 of work 55555; \<open>B_456\<close> holds a page of the
  same work whose modification time cannot be read (a dangling symbolic link) and page 0
  of work 66666.
\<close>

definition e_link :: env where
  "e_link = \<lparr>walk = (\<lambda>t. [(''/t/A_123'', [''55555_p0.jpg'']),
                          (''/t/B_456'', [''55555_p1.jpg'', ''66666_p0.jpg''])]),
     getmtime_ms = (\<lambda>p. if p = ''/t/B_456/55555_p1.jpg'' then None else Some 1000),
     load_json = (\<lambda>p. None), md5_hex = (\<lambda>s. s), parse_int = (\<lambda>s. None),
     db_available = True, as_completed = (\<lambda>n. [0..<n])\<rparr>"


section \<open>Auxiliary lemmas\<close>

lemma sorted_desc_key: "sorted (rev (map f (sort_key (\<lambda>x. - f x) xs)))" for f :: "'a \<Rightarrow> int"
proof -
  have "sorted (map (\<lambda>x. - f x) (sort_key (\<lambda>x. - f x) xs))" by (rule sorted_sort_key)
  then show ?thesis by (simp add: sorted_wrt_rev sorted_wrt_map)
qed


section \<open>The stream engine: operator and ordering\<close>


section \<open>The like toggle\<close>

text \<open>
  C9. When the family string of \<open>POST like/{family}/{id}\<close> is neither \<open>pixiv\<close> nor \<open>tweet\<close>
  (any other name, not only \<open>other\<close>), the update goes to \<open>other_works\<close>: the rows with
  that id get the flag, the other two tables stay as they were, the response is \<open>ok\<close>;
  with an id no row has, the store is unchanged and the response is still \<open>ok\<close>.
\<close>

theorem toggle_like_other_family:
  assumes "type_s \<noteq> ''pixiv''" and "type_s \<noteq> ''tweet''"
  shows "toggle_like d type_s id_s liked =
           (d\<lparr>other_works :=
                map (\<lambda>r. if ow_id r = id_s then r\<lparr>ow_is_liked := (if liked then 1 else 0)\<rparr> else r)
                  (other_works d)\<rparr>, ''ok'')
         \<and> pixiv_works (fst (toggle_like d type_s id_s liked)) = pixiv_works d
         \<and> tweets (fst (toggle_like d type_s id_s liked)) = tweets d
         \<and> (id_s \<notin> set (map ow_id (other_works d))
              \<longrightarrow> toggle_like d type_s id_s liked = (d, ''ok''))"
proof -
  have upd: "toggle_like d type_s id_s liked =
           (d\<lparr>other_works :=
                map (\<lambda>r. if ow_id r = id_s then r\<lparr>ow_is_liked := (if liked then 1 else 0)\<rparr> else r)
                  (other_works d)\<rparr>, ''ok'')"
    using assms by (simp add: toggle_like_def)
  have same: "map (\<lambda>r. if ow_id r = id_s then r\<lparr>ow_is_liked := v\<rparr> else r) rows = rows"
    if "id_s \<notin> set (map ow_id rows)" for rows :: "other_work list" and v
    using that by (induction rows) auto
  show ?thesis using upd same by simp
qed

theorem toggle_like_other_family_witness:
  "toggle_like d_like ''album'' ''a1'' True =
     (d_like\<lparr>other_works := [\<lparr>ow_id = ''a1'', ow_filename = ''x.png'', ow_folder_name = ''f'',
        ow_file_path = ''/t/f/x.png'', ow_media_type = ''image'', ow_file_mtime = 7,
        ow_is_liked = 1\<rparr>]\<rparr>, ''ok'')
   \<and> toggle_like d_like ''album'' ''zz'' True = (d_like, ''ok'')"
proof -
  have a: "''album'' \<noteq> ''pixiv''" and b: "''album'' \<noteq> ''tweet''" by simp_all
  have c: "''zz'' \<notin> set (map ow_id (other_works d_like))"
    by (simp add: d_like_def empty_store_def)
  from toggle_like_other_family[OF a b, of d_like "''a1''" True]
  have 1: "toggle_like d_like ''album'' ''a1'' True =
     (d_like\<lparr>other_works := [\<lparr>ow_id = ''a1'', ow_filename = ''x.png'', ow_folder_name = ''f'',
        ow_file_path = ''/t/f/x.png'', ow_media_type = ''image'', ow_file_mtime = 7,
        ow_is_liked = 1\<rparr>]\<rparr>, ''ok'')"
    by (simp add: d_like_def empty_store_def)
  from toggle_like_other_family[OF a b, of d_like "''zz''" True] c
  have 2: "toggle_like d_like ''album'' ''zz'' True = (d_like, ''ok'')" by blast
  from 1 2 show ?thesis by simp
qed

section \<open>Finalising the pages of a work\<close>


section \<open>The reconciliation at the end of a pass\<close>

lemma cleanup_duplicates_exclusive:
  "r \<in> set (other_works (cleanup_duplicates d))
     \<Longrightarrow> \<not> claimed_path (cleanup_duplicates d) (ow_file_path r)"
  by (simp add: cleanup_duplicates_def claimed_path_def)

text \<open>
  C5. After a pass that reaches its reconciliation step (the database opened, no pass was
  running), no row of \<open>other_works\<close> has a file path that a row of \<open>pixiv_pages\<close> or of
  \<open>tweet_media\<close> has.
\<close>

theorem scan_exclusive_classification:
  assumes "\<not> is_scanning st" and "db_available e"
  shows "\<forall>r \<in> set (other_works (db (run_scan e st target_dir))).
           ow_file_path r \<notin> set (map pp_file_path (pixiv_pages (db (run_scan e st target_dir))))
           \<and> ow_file_path r \<notin> set (map tm_file_path (tweet_media (db (run_scan e st target_dir))))"
proof -
  obtain d1 where d: "db (run_scan e st target_dir) = cleanup_duplicates d1"
    using assms by (simp add: run_scan_def scan_enter_def scan_leave_def scan_body_def Let_def)
  show ?thesis
    unfolding d using cleanup_duplicates_exclusive[of _ d1] by (auto simp: claimed_path_def)
qed

theorem scan_exclusive_classification_witness:
  "''/t/f/m_12345678901234.jpg''
      \<in> set (map tm_file_path (tweet_media (db (run_scan e_claimed st_claimed ''/t''))))
   \<and> ''/t/f/m_12345678901234.jpg''
      \<in> set (map ow_file_path (other_works (db st_claimed)))
   \<and> ''/t/f/m_12345678901234.jpg''
      \<notin> set (map ow_file_path (other_works (db (run_scan e_claimed st_claimed ''/t''))))"
proof -
  have a: "\<not> is_scanning st_claimed" by (simp add: st_claimed_def)
  have b: "db_available e_claimed" by (simp add: e_claimed_def)
  have c: "''/t/f/m_12345678901234.jpg''
      \<in> set (map tm_file_path (tweet_media (db (run_scan e_claimed st_claimed ''/t''))))"
    by code_simp
  have d: "''/t/f/m_12345678901234.jpg''
      \<in> set (map ow_file_path (other_works (db st_claimed)))"
    by (simp add: st_claimed_def empty_store_def)
  from scan_exclusive_classification[OF a b, of "''/t''"] c d show ?thesis by auto
qed

section \<open>Single flight\<close>








section \<open>The classifier\<close>

lemma m_type_of_cases:
  "m_type_of f = (if endswith (lower f) ''.mp4'' \<or> endswith (lower f) ''.webm'' then ''video'' else ''image'')"
  by (simp add: m_type_of_def endswith_any_def)

lemma media_files_of_subset:
  "f \<in> set (media_files_of files) \<Longrightarrow>
     f \<in> set files \<and> \<not> is_hidden f \<and> \<not> is_json_file f \<and> has_media_ext f"
  by (simp add: media_files_of_def)

lemma media_map_subset: "set (media_map_for_tweets mfs tid) \<subseteq> set mfs"
  by (auto simp: media_map_for_tweets_def)

lemma tweet_entry_snd:
  "snd (tweet_entry e root folder_name mfs jf tid data mtime) =
     map (\<lambda>mf. \<lparr>tm_tweet_id = tid, tm_file_path = path_join root mf, tm_media_type = m_type_of mf\<rparr>)
       (media_map_for_tweets mfs tid)"
  by (simp add: tweet_entry_def Let_def)

lemma tweet_entry_id: "tw_id (fst (tweet_entry e root folder_name mfs jf tid data mtime)) = tid"
  by (simp add: tweet_entry_def Let_def)

lemma tweet_entry_from_media:
  "m \<in> set (snd (tweet_entry e root folder_name mfs jf tid data mtime))
     \<Longrightarrow> from_media root mfs (tm_file_path m) (tm_media_type m)"
  using media_map_subset[of mfs tid] by (auto simp: tweet_entry_snd from_media_def)

lemma tweet_step_from_media:
  "tweets_from_media root mfs (fst acc)
     \<Longrightarrow> tweets_from_media root mfs (fst (tweet_step e root folder_name mfs ex jf acc))"
  by (cases acc)
    (auto simp: tweet_step_def tweets_from_media_def tweet_entry_from_media split: option.splits)

lemma tweet_loop_from_media:
  "tweets_from_media root mfs (fst acc)
     \<Longrightarrow> tweets_from_media root mfs (fst (tweet_loop e root folder_name mfs ex jfs acc))"
  by (induction jfs arbitrary: acc) (simp_all add: tweet_step_from_media)





lemma set_update_subset: "set (AList.update k v al) \<subseteq> insert (k, v) (set al)"
  by (induction al) auto

lemma add_page_pages:
  "b_pages (add_page mf an fn mtime page old) =
     (case old of None \<Rightarrow> [] | Some b0 \<Rightarrow> b_pages b0) @ [page]"
  by (simp add: add_page_def Let_def split: option.splits)

lemma pixiv_step_inv:
  assumes "mf \<in> set mfs" and "pix_inv root mfs used0 acc"
    and "pixiv_step e root fn aid an ex mf acc = Inr acc'"
  shows "pix_inv root mfs used0 acc'"
proof (cases acc)
  case (Pair buf used)
  show ?thesis
  proof (cases "mf \<in> used")
    case True
    with assms Pair show ?thesis by (simp add: pixiv_step_def)
  next
    case False
    obtain wid p_num where w: "pixiv_wid e aid mf = (wid, p_num)" by (cases "pixiv_wid e aid mf")
    show ?thesis
    proof (cases "wid \<in> ex")
      case True
      with assms Pair False w show ?thesis by (auto simp: pixiv_step_def pix_inv_def)
    next
      case nex: False
      with assms(3) Pair False w obtain mtime where
        m: "getmtime_ms e (path_join root mf) = Some mtime"
        and acc': "acc' = (AList.update wid (add_page mf an fn mtime (p_num, path_join root mf, m_type_of mf)
                             (map_of buf wid)) buf, insert mf used)"
        by (auto simp: pixiv_step_def split: option.splits)
      from assms(2) Pair False have nu: "mf \<notin> used0" by (auto simp: pix_inv_def)
      have old: "pages_from_media root mfs used0 (b_pages b0)" if "map_of buf wid = Some b0" for b0
        using that assms(2) Pair map_of_SomeD[of buf wid b0] by (fastforce simp: pix_inv_def)
      have new: "pages_from_media root mfs used0
                   (b_pages (add_page mf an fn mtime (p_num, path_join root mf, m_type_of mf)
                      (map_of buf wid)))"
      proof (cases "map_of buf wid")
        case None
        with assms(1) nu show ?thesis by (auto simp: add_page_pages pages_from_media_def)
      next
        case (Some b0)
        with old[OF Some] assms(1) nu show ?thesis
          by (auto simp: add_page_pages pages_from_media_def)
      qed
      have mem: "x = (wid, add_page mf an fn mtime (p_num, path_join root mf, m_type_of mf)
                             (map_of buf wid)) \<or> x \<in> set buf"
        if "x \<in> set (AList.update wid (add_page mf an fn mtime
                  (p_num, path_join root mf, m_type_of mf) (map_of buf wid)) buf)" for x
        using that set_update_subset[of wid _ buf] by blast
      show ?thesis
        using assms(2) Pair new mem unfolding acc' pix_inv_def by fastforce
    qed
  qed
qed

lemma pixiv_loop_inv:
  assumes "set ms \<subseteq> set mfs" and "pix_inv root mfs used0 acc"
    and "pixiv_loop e root fn aid an ex ms acc = Inr acc'"
  shows "pix_inv root mfs used0 acc'"
  using assms
proof (induction ms arbitrary: acc)
  case Nil
  then show ?case by simp
next
  case (Cons mf ms)
  from Cons.prems(3) obtain acc1 where
    s: "pixiv_step e root fn aid an ex mf acc = Inr acc1"
    and l: "pixiv_loop e root fn aid an ex ms acc1 = Inr acc'"
    by (auto split: sum.splits)
  from Cons.prems(1) have "mf \<in> set mfs" and sub: "set ms \<subseteq> set mfs" by auto
  from pixiv_step_inv[OF this(1) Cons.prems(2) s] have "pix_inv root mfs used0 acc1" .
  from Cons.IH[OF sub this l] show ?case .
qed

lemma other_step_inv:
  assumes "mf \<in> set mfs" and "other_inv e root mfs exo used ob"
    and "other_step e root fn exo used mf ob = Inr ob'"
  shows "other_inv e root mfs exo used ob'"
  using assms by (auto simp: other_step_def other_inv_def split: if_splits option.splits)

lemma other_loop_inv:
  assumes "set ms \<subseteq> set mfs" and "other_inv e root mfs exo used ob"
    and "other_loop e root fn exo used ms ob = Inr ob'"
  shows "other_inv e root mfs exo used ob'"
  using assms
proof (induction ms arbitrary: ob)
  case Nil
  then show ?case by simp
next
  case (Cons mf ms)
  from Cons.prems(3) obtain ob1 where
    s: "other_step e root fn exo used mf ob = Inr ob1"
    and l: "other_loop e root fn exo used ms ob1 = Inr ob'"
    by (auto split: sum.splits)
  from Cons.prems(1) have "mf \<in> set mfs" and sub: "set ms \<subseteq> set mfs" by auto
  from other_step_inv[OF this(1) Cons.prems(2) s] have "other_inv e root mfs exo used ob1" .
  from Cons.IH[OF sub this l] show ?case .
qed

text \<open>What a worker that returns has computed, phase by phase.\<close>

lemma scan_worker_phases:
  assumes "scan_worker e (root, files, exp, ext, exo) = Inr (t_buf, p_buf, o_buf)"
  shows "\<exists>used2.
           t_buf = fst (tweet_loop e root (basename root) (media_files_of files) ext
                          (json_files_of files) ([], {}))
         \<and> pix_inv root (media_files_of files)
               (snd (tweet_loop e root (basename root) (media_files_of files) ext
                          (json_files_of files) ([], {}))) (p_buf, used2)
         \<and> other_inv e root (media_files_of files) exo used2 o_buf"
proof -
  define mfs where "mfs = media_files_of files"
  define tl where "tl = tweet_loop e root (basename root) mfs ext (json_files_of files) ([], {})"
  obtain tb used1 where tl_eq: "tl = (tb, used1)" by (cases tl)
  define px where "px = (case pixiv_folder_match (basename root) of
                    None \<Rightarrow> Inr ([], used1)
                  | Some aid \<Rightarrow>
                      pixiv_loop e root (basename root) aid (author_name_of (basename root))
                        exp mfs ([], used1))"
  from assms have sw: "(case px of Inl err \<Rightarrow> Inl err
            | Inr (pixiv_buffer, used2) \<Rightarrow>
                (case other_loop e root (basename root) exo used2 mfs [] of
                   Inl err \<Rightarrow> Inl err
                 | Inr other_buffer \<Rightarrow> Inr (tb, pixiv_buffer, other_buffer))) = Inr (t_buf, p_buf, o_buf)"
    using tl_eq unfolding mfs_def tl_def px_def by (simp add: scan_worker_def Let_def)
  then obtain used2 where px_eq: "px = Inr (p_buf, used2)"
    and ol: "other_loop e root (basename root) exo used2 mfs [] = Inr o_buf"
    and tb: "tb = t_buf"
    by (auto split: sum.splits prod.splits)
  have init: "pix_inv root mfs used1 ([], used1)" by (simp add: pix_inv_def)
  have pinv: "pix_inv root mfs used1 (p_buf, used2)"
  proof (cases "pixiv_folder_match (basename root)")
    case None
    with px_eq init show ?thesis by (simp add: px_def)
  next
    case (Some aid)
    with px_eq have "pixiv_loop e root (basename root) aid (author_name_of (basename root))
                        exp mfs ([], used1) = Inr (p_buf, used2)" by (simp add: px_def)
    from pixiv_loop_inv[OF subset_refl init this] show ?thesis .
  qed
  have oinv: "other_inv e root mfs exo used2 o_buf"
  proof -
    have "other_inv e root mfs exo used2 []" by (simp add: other_inv_def)
    from other_loop_inv[OF subset_refl this ol] show ?thesis .
  qed
  from tb tl_eq pinv oinv show ?thesis
    unfolding tl_def[symmetric] mfs_def[symmetric] by (auto simp: tl_def)
qed

lemma finalize_pages_set:
  "p \<in> set (finalize_pages wid pages) \<Longrightarrow>
     \<exists>pg \<in> set pages. pp_work_id p = wid \<and> pp_file_path p = fst (snd pg)
                        \<and> pp_media_type p = snd (snd pg)"
proof -
  assume "p \<in> set (finalize_pages wid pages)"
  then obtain i pg where z: "(i, pg) \<in> set (zip [0..<length pages] (sort_key fst pages))"
    and p: "p = \<lparr>pp_work_id = wid, pp_page_num = i, pp_file_path = fst (snd pg),
                  pp_media_type = snd (snd pg)\<rparr>"
    by (auto simp: finalize_pages_def enumerate_eq_zip)
  from set_zip_rightD[OF z] have "pg \<in> set pages" by simp
  with p show ?thesis by auto
qed

lemma finalize_pages_length: "length (finalize_pages wid pages) = length pages"
  by (simp add: finalize_pages_def enumerate_eq_zip)

lemma finalize_pages_nonempty: "pages \<noteq> [] \<Longrightarrow> finalize_pages wid pages \<noteq> []"
  using finalize_pages_length[of wid pages] by (metis length_0_conv)

text \<open>
  C10. A file is a media file of the classifier only if it is one of the listed files and
  its lowercased name ends with \<open>.jpg\<close>, \<open>.jpeg\<close>, \<open>.png\<close>, \<open>.gif\<close>, \<open>.mp4\<close> or \<open>.webm\<close>.
  Every media row a worker that returns has produced (the media of a new post, the pages
  of a new work as they are finalised, an unclassified record) is the row of a media file
  of the directory, and its kind is \<open>video\<close> when the lowercased name of that file ends
  with \<open>.mp4\<close> or \<open>.webm\<close> and \<open>image\<close> otherwise.
\<close>

theorem media_kinds:
  assumes "scan_worker e (root, files, exp, ext, exo) = Inr (t_buf, p_buf, o_buf)"
  shows "(\<forall>f \<in> set (media_files_of files).
            f \<in> set files
            \<and> (\<exists>x \<in> set [''.jpg'', ''.jpeg'', ''.png'', ''.gif'', ''.mp4'', ''.webm''].
                  endswith (lower f) x))
         \<and> (\<forall>x \<in> set t_buf. \<forall>m \<in> set (snd x). \<exists>f \<in> set (media_files_of files).
               tm_file_path m = path_join root f
               \<and> tm_media_type m =
                   (if endswith (lower f) ''.mp4'' \<or> endswith (lower f) ''.webm''
                    then ''video'' else ''image''))
         \<and> (\<forall>x \<in> set p_buf. \<forall>p \<in> set (finalize_pages (fst x) (b_pages (snd x))).
               \<exists>f \<in> set (media_files_of files).
                 pp_file_path p = path_join root f
                 \<and> pp_media_type p =
                     (if endswith (lower f) ''.mp4'' \<or> endswith (lower f) ''.webm''
                      then ''video'' else ''image''))
         \<and> (\<forall>r \<in> set o_buf. \<exists>f \<in> set (media_files_of files).
               ow_filename r = f \<and> ow_file_path r = path_join root f
               \<and> ow_media_type r =
                   (if endswith (lower f) ''.mp4'' \<or> endswith (lower f) ''.webm''
                    then ''video'' else ''image''))"
proof -
  let ?mfs = "media_files_of files"
  let ?used1 = "snd (tweet_loop e root (basename root) ?mfs ext (json_files_of files) ([], {}))"
  from scan_worker_phases[OF assms] obtain used2 where
    t: "t_buf = fst (tweet_loop e root (basename root) ?mfs ext (json_files_of files) ([], {}))"
    and p: "pix_inv root ?mfs ?used1 (p_buf, used2)"
    and o: "other_inv e root ?mfs exo used2 o_buf"
    by blast
  have a: "\<forall>f \<in> set ?mfs. f \<in> set files
            \<and> (\<exists>x \<in> set [''.jpg'', ''.jpeg'', ''.png'', ''.gif'', ''.mp4'', ''.webm''].
                  endswith (lower f) x)"
    using media_files_of_subset[of _ files]
    by (auto simp: has_media_ext_def endswith_any_def)
  have "tweets_from_media root ?mfs t_buf"
    unfolding t by (rule tweet_loop_from_media) (simp add: tweets_from_media_def)
  then have b: "\<forall>x \<in> set t_buf. \<forall>m \<in> set (snd x). \<exists>f \<in> set ?mfs.
               tm_file_path m = path_join root f
               \<and> tm_media_type m =
                   (if endswith (lower f) ''.mp4'' \<or> endswith (lower f) ''.webm''
                    then ''video'' else ''image'')"
    unfolding tweets_from_media_def from_media_def m_type_of_cases by blast
  have c: "\<forall>x \<in> set p_buf. \<forall>p \<in> set (finalize_pages (fst x) (b_pages (snd x))).
               \<exists>f \<in> set ?mfs.
                 pp_file_path p = path_join root f
                 \<and> pp_media_type p =
                     (if endswith (lower f) ''.mp4'' \<or> endswith (lower f) ''.webm''
                      then ''video'' else ''image'')"
  proof (intro ballI)
    fix x p
    assume x: "x \<in> set p_buf" and pp: "p \<in> set (finalize_pages (fst x) (b_pages (snd x)))"
    from finalize_pages_set[OF pp] obtain pg where
      pg: "pg \<in> set (b_pages (snd x))" "pp_file_path p = fst (snd pg)"
          "pp_media_type p = snd (snd pg)" by blast
    from p x have "pages_from_media root ?mfs ?used1 (b_pages (snd x))"
      by (simp add: pix_inv_def)
    with pg(1) obtain f where "f \<in> set ?mfs" "fst (snd pg) = path_join root f"
      "snd (snd pg) = m_type_of f"
      unfolding pages_from_media_def by blast
    with pg(2,3) show "\<exists>f \<in> set ?mfs.
                 pp_file_path p = path_join root f
                 \<and> pp_media_type p =
                     (if endswith (lower f) ''.mp4'' \<or> endswith (lower f) ''.webm''
                      then ''video'' else ''image'')"
      unfolding m_type_of_cases[symmetric] by auto
  qed
  have d: "\<forall>r \<in> set o_buf. \<exists>f \<in> set ?mfs.
               ow_filename r = f \<and> ow_file_path r = path_join root f
               \<and> ow_media_type r =
                   (if endswith (lower f) ''.mp4'' \<or> endswith (lower f) ''.webm''
                    then ''video'' else ''image'')"
    using o unfolding other_inv_def m_type_of_cases[symmetric] by auto
  from a b c d show ?thesis by blast
qed

theorem media_kinds_witness:
  "scan_worker e_kinds (''/t/x_123'', kinds_files, {}, {}, {}) = Inr (kinds_tweets, kinds_pixiv, [])
   \<and> (\<exists>f \<in> set (media_files_of kinds_files).
         ''/t/x_123/Clip.MP4'' = path_join ''/t/x_123'' f
         \<and> ''video'' = (if endswith (lower f) ''.mp4'' \<or> endswith (lower f) ''.webm''
                         then ''video'' else ''image''))
   \<and> (\<exists>f \<in> set (media_files_of kinds_files).
         ''/t/x_123/photo_20230101123456789_1.jpg'' = path_join ''/t/x_123'' f
         \<and> ''image'' = (if endswith (lower f) ''.mp4'' \<or> endswith (lower f) ''.webm''
                         then ''video'' else ''image''))"
proof -
  have eq: "scan_worker e_kinds (''/t/x_123'', kinds_files, {}, {}, {})
              = Inr (kinds_tweets, kinds_pixiv, [])"
    by code_simp
  note k = media_kinds[OF eq]
  from k have "\<forall>x \<in> set kinds_pixiv. \<forall>p \<in> set (finalize_pages (fst x) (b_pages (snd x))).
               \<exists>f \<in> set (media_files_of kinds_files).
                 pp_file_path p = path_join ''/t/x_123'' f
                 \<and> pp_media_type p =
                     (if endswith (lower f) ''.mp4'' \<or> endswith (lower f) ''.webm''
                      then ''video'' else ''image'')"
    by blast
  then have 1: "\<exists>f \<in> set (media_files_of kinds_files).
         ''/t/x_123/Clip.MP4'' = path_join ''/t/x_123'' f
         \<and> ''video'' = (if endswith (lower f) ''.mp4'' \<or> endswith (lower f) ''.webm''
                         then ''video'' else ''image'')"
    by (simp add: kinds_pixiv_def finalize_pages_def enumerate_eq_zip)
  from k have "\<forall>x \<in> set kinds_tweets. \<forall>m \<in> set (snd x). \<exists>f \<in> set (media_files_of kinds_files).
               tm_file_path m = path_join ''/t/x_123'' f
               \<and> tm_media_type m =
                   (if endswith (lower f) ''.mp4'' \<or> endswith (lower f) ''.webm''
                    then ''video'' else ''image'')"
    by blast
  then have 2: "\<exists>f \<in> set (media_files_of kinds_files).
         ''/t/x_123/photo_20230101123456789_1.jpg'' = path_join ''/t/x_123'' f
         \<and> ''image'' = (if endswith (lower f) ''.mp4'' \<or> endswith (lower f) ''.webm''
                         then ''video'' else ''image'')"
    by (simp add: kinds_tweets_def)
  from eq 1 2 show ?thesis by blast
qed

section \<open>Media of a post\<close>




section \<open>The store invariant\<close>

lemma kind_ok_m_type_of: "kind_ok (m_type_of f)"
  by (simp add: kind_ok_def m_type_of_def)

lemma insert_or_ignore_keys:
  "distinct (map key tbl) \<Longrightarrow> distinct (map key (insert_or_ignore key tbl rows))"
  by (induction rows arbitrary: tbl) auto

lemma insert_or_ignore_set:
  "set tbl \<subseteq> set (insert_or_ignore key tbl rows)
   \<and> set (insert_or_ignore key tbl rows) \<subseteq> set tbl \<union> set rows"
proof (induction rows arbitrary: tbl)
  case Nil
  then show ?case by simp
next
  case (Cons r rows)
  from Cons.IH[of "if key r \<in> set (map key tbl) then tbl else tbl @ [r]"]
  show ?case by (auto split: if_splits)
qed

lemma has_page_mono: "set ps \<subseteq> set ps' \<Longrightarrow> has_page ps w \<Longrightarrow> has_page ps' w"
  by (auto simp: has_page_def list_ex_iff)

lemma write_tweets_inv: 
  "store_inv d \<Longrightarrow> list_all (\<lambda>m. kind_ok (tm_media_type m)) ms \<Longrightarrow> store_inv (write_tweets ts ms d)"
  by (simp add: store_inv_def write_tweets_def ids_distinct_def kinds_ok_def works_have_pages_def
        insert_or_ignore_keys)

lemma write_others_inv: "store_inv d \<Longrightarrow> store_inv (write_others os d)"
  by (simp add: store_inv_def write_others_def ids_distinct_def kinds_ok_def works_have_pages_def
        insert_or_ignore_keys)

lemma write_pixiv_inv:
  assumes "store_inv d" and "list_all (has_page ps) ws"
    and "list_all (\<lambda>p. kind_ok (pp_media_type p)) ps"
  shows "store_inv (write_pixiv ws ps d)"
proof -
  have "has_page (pixiv_pages d @ ps) w"
    if "w \<in> set (insert_or_ignore pw_id (pixiv_works d) ws)" for w
  proof -
    from that insert_or_ignore_set[of "pixiv_works d" pw_id ws]
    have "w \<in> set (pixiv_works d) \<or> w \<in> set ws" by blast
    then show ?thesis
    proof
      assume "w \<in> set (pixiv_works d)"
      with assms(1) have "has_page (pixiv_pages d) w"
        by (simp add: store_inv_def works_have_pages_def list_all_iff)
      then show ?thesis by (rule has_page_mono[rotated]) simp
    next
      assume "w \<in> set ws"
      with assms(2) have "has_page ps w" by (simp add: list_all_iff)
      then show ?thesis by (rule has_page_mono[rotated]) simp
    qed
  qed
  then have "works_have_pages (write_pixiv ws ps d)"
    by (simp add: works_have_pages_def write_pixiv_def list_all_iff)
  moreover have "ids_distinct (write_pixiv ws ps d)"
    using assms(1) by (simp add: store_inv_def ids_distinct_def write_pixiv_def insert_or_ignore_keys)
  moreover have "kinds_ok (write_pixiv ws ps d)"
    using assms(1,3) by (simp add: store_inv_def kinds_ok_def write_pixiv_def)
  ultimately show ?thesis by (simp add: store_inv_def)
qed

lemma cleanup_duplicates_inv: "store_inv d \<Longrightarrow> store_inv (cleanup_duplicates d)"
  by (simp add: store_inv_def cleanup_duplicates_def ids_distinct_def kinds_ok_def
        works_have_pages_def distinct_map_filter)

lemma toggle_like_inv: "store_inv d \<Longrightarrow> store_inv (fst (toggle_like d type_s id_s liked))"
proof -
  have 1: "map pw_id (map (\<lambda>r. if pw_id r = i then r\<lparr>pw_is_liked := v\<rparr> else r) rows) = map pw_id rows"
    for i v and rows :: "pixiv_work list" by (induction rows) auto
  have 2: "map tw_id (map (\<lambda>r. if tw_id r = i then r\<lparr>tw_is_liked := v\<rparr> else r) rows) = map tw_id rows"
    for i v and rows :: "tweet list" by (induction rows) auto
  have 3: "map ow_id (map (\<lambda>r. if ow_id r = i then r\<lparr>ow_is_liked := v\<rparr> else r) rows) = map ow_id rows"
    for i v and rows :: "other_work list" by (induction rows) auto
  have 4: "list_all (has_page ps) (map (\<lambda>r. if pw_id r = i then r\<lparr>pw_is_liked := v\<rparr> else r) rows)
             = list_all (has_page ps) rows"
    for i v ps and rows :: "pixiv_work list" by (induction rows) (auto simp: has_page_def)
  assume "store_inv d"
  then show ?thesis
    using 1 2 3 4
    by (simp add: toggle_like_def Let_def store_inv_def ids_distinct_def kinds_ok_def
          works_have_pages_def del: map_map)
qed

lemma scan_worker_good: "good_result (scan_worker e args)"
proof (cases "scan_worker e args")
  case (Inl err)
  then show ?thesis by (simp add: good_result_def)
next
  case (Inr res)
  obtain root files exp ext exo where args: "args = (root, files, exp, ext, exo)"
    by (cases args)
  obtain t_buf p_buf o_buf where res: "res = (t_buf, p_buf, o_buf)" by (cases res)
  let ?mfs = "media_files_of files"
  let ?tl = "tweet_loop e root (basename root) ?mfs ext (json_files_of files) ([], {})"
  from scan_worker_phases[OF Inr[unfolded args res]] obtain used2 where
    t: "t_buf = fst ?tl"
    and p: "pix_inv root ?mfs (snd ?tl) (p_buf, used2)"
    by blast
  have "tweets_from_media root ?mfs t_buf"
    unfolding t by (rule tweet_loop_from_media) (simp add: tweets_from_media_def)
  then have a: "list_all (\<lambda>x. list_all (\<lambda>m. kind_ok (tm_media_type m)) (snd x)) t_buf"
    unfolding tweets_from_media_def from_media_def list_all_iff
    using kind_ok_m_type_of by fastforce
  have b: "list_all (\<lambda>x. b_pages (snd x) \<noteq> []
                    \<and> list_all (\<lambda>pg. kind_ok (snd (snd pg))) (b_pages (snd x))) p_buf"
    using p kind_ok_m_type_of
    unfolding pix_inv_def pages_from_media_def list_all_iff by fastforce
  from a b show ?thesis by (simp add: Inr res good_result_def)
qed

lemma work_row_has_page:
  "b_pages data \<noteq> [] \<Longrightarrow> has_page (finalize_pages wid (b_pages data)) (work_row wid data)"
proof -
  assume "b_pages data \<noteq> []"
  from finalize_pages_nonempty[OF this, of wid] obtain p where
    p: "p \<in> set (finalize_pages wid (b_pages data))" by (cases "finalize_pages wid (b_pages data)") auto
  from finalize_pages_set[OF p] have "pp_work_id p = wid" by blast
  with p show ?thesis by (auto simp: has_page_def list_ex_iff work_row_def)
qed

lemma finalize_pages_kinds:
  "list_all (\<lambda>pg. kind_ok (snd (snd pg))) pages
     \<Longrightarrow> list_all (\<lambda>p. kind_ok (pp_media_type p)) (finalize_pages wid pages)"
  unfolding list_all_iff using finalize_pages_set[of _ wid pages] by fastforce

lemma absorb_inv:
  assumes "agg_inv s" and "good_result (Inr res)"
  shows "agg_inv (absorb s res)"
proof -
  obtain t_buf p_buf o_buf where res: "res = (t_buf, p_buf, o_buf)" by (cases res)
  let ?newp = "concat (map (\<lambda>(wid, data). finalize_pages wid (b_pages data)) p_buf)"
  from assms(2) have gt: "list_all (\<lambda>x. list_all (\<lambda>m. kind_ok (tm_media_type m)) (snd x)) t_buf"
    and gp: "list_all (\<lambda>x. b_pages (snd x) \<noteq> []
                    \<and> list_all (\<lambda>pg. kind_ok (snd (snd pg))) (b_pages (snd x))) p_buf"
    by (simp_all add: good_result_def res)
  have k1: "list_all (\<lambda>m. kind_ok (tm_media_type m)) (concat (map snd t_buf))"
    using gt by (auto simp: list_all_iff)
  have k2: "list_all (\<lambda>p. kind_ok (pp_media_type p)) ?newp"
  proof -
    have "list_all (\<lambda>p. kind_ok (pp_media_type p)) (finalize_pages (fst x) (b_pages (snd x)))"
      if "x \<in> set p_buf" for x
      using gp that finalize_pages_kinds by (auto simp: list_all_iff)
    then show ?thesis by (auto simp: list_all_iff split_def)
  qed
  have h1: "has_page (b_pix_p s @ ?newp) w" if "w \<in> set (b_pix_w s)" for w
  proof -
    from assms(1) that have "has_page (b_pix_p s) w" by (simp add: agg_inv_def list_all_iff)
    then show ?thesis by (rule has_page_mono[rotated]) simp
  qed
  have h2: "has_page (b_pix_p s @ ?newp) (work_row (fst x) (snd x))" if "x \<in> set p_buf" for x
  proof -
    from gp that have "b_pages (snd x) \<noteq> []" by (simp add: list_all_iff)
    from work_row_has_page[OF this, of "fst x"]
    have "has_page (finalize_pages (fst x) (b_pages (snd x))) (work_row (fst x) (snd x))" .
    moreover have "set (finalize_pages (fst x) (b_pages (snd x))) \<subseteq> set (b_pix_p s @ ?newp)"
      using that by (auto simp: split_def)
    ultimately show ?thesis by (rule has_page_mono[rotated])
  qed
  have h: "list_all (has_page (b_pix_p s @ ?newp))
             (b_pix_w s @ map (\<lambda>(wid, data). work_row wid data) p_buf)"
    using h1 h2 by (auto simp: list_all_iff)
  from assms(1) k1 k2 h show ?thesis
    by (simp add: absorb_def res agg_inv_def)
qed

lemma flush_tweets_inv: "agg_inv s \<Longrightarrow> agg_inv (flush_tweets s)"
  by (simp add: flush_tweets_def agg_inv_def write_tweets_inv)

lemma flush_pixiv_inv: "agg_inv s \<Longrightarrow> agg_inv (flush_pixiv s)"
  by (simp add: flush_pixiv_def agg_inv_def write_pixiv_inv)

lemma flush_others_inv: "agg_inv s \<Longrightarrow> agg_inv (flush_others s)"
  by (simp add: flush_others_def agg_inv_def write_others_inv)

lemma report_progress_inv: "agg_inv s \<Longrightarrow> agg_inv (report_progress s)"
  by (simp add: report_progress_def agg_inv_def)

lemma agg_step_inv: "agg_inv s \<Longrightarrow> good_result fut \<Longrightarrow> agg_inv (agg_step s fut)"
  by (cases fut)
    (simp_all add: agg_step_def absorb_inv flush_tweets_inv flush_pixiv_inv flush_others_inv
       report_progress_inv)

lemma foldl_agg_step_inv:
  "agg_inv s \<Longrightarrow> \<forall>fut \<in> set futs. good_result fut \<Longrightarrow> agg_inv (foldl agg_step s futs)"
  by (induction futs arbitrary: s) (simp_all add: agg_step_inv)

lemma final_flush_inv: "agg_inv s \<Longrightarrow> store_inv (final_flush s)"
  by (simp add: final_flush_def agg_inv_def Let_def write_tweets_inv write_pixiv_inv
        write_others_inv)

lemma completed_futures_subset: "set (completed_futures e futs) \<subseteq> set futs"
  by (auto simp: completed_futures_def)

lemma scan_body_inv: "store_inv d \<Longrightarrow> store_inv (fst (scan_body e d target_dir))"
proof (cases "db_available e")
  case False
  assume "store_inv d"
  with False show ?thesis by (simp add: scan_body_def)
next
  case True
  assume inv: "store_inv d"
  define tasks where "tasks = scan_tasks e target_dir (set (map pw_id (pixiv_works d)))
                      (set (map tw_id (tweets d))) (set (map ow_id (other_works d)))"
  define s0 where "s0 = \<lparr>conn = d, b_pix_w = [], b_pix_p = [], b_tweets = [], b_tweet_m = [],
                   b_others = [], cnt_t = 0, cnt_p = 0, cnt_o = 0,
                   status = MsgFolders (length tasks)\<rparr>"
  have "agg_inv s0" using inv by (simp add: s0_def agg_inv_def)
  moreover have "\<forall>fut \<in> set (completed_futures e (map (scan_worker e) tasks)). good_result fut"
    using completed_futures_subset[of e "map (scan_worker e) tasks"] scan_worker_good by auto
  ultimately have "agg_inv (foldl agg_step s0 (completed_futures e (map (scan_worker e) tasks)))"
    by (rule foldl_agg_step_inv)
  from cleanup_duplicates_inv[OF final_flush_inv[OF this]] True show ?thesis
    unfolding s0_def tasks_def by (simp add: scan_body_def Let_def)
qed

lemma run_scan_inv: "store_inv (db st) \<Longrightarrow> store_inv (db (run_scan e st target_dir))"
  using scan_body_inv[of "db st" e target_dir]
  by (auto simp: run_scan_def scan_enter_def scan_leave_def split: prod.splits)

lemma reachable_store_inv: "reachable_store d \<Longrightarrow> store_inv d"
proof (induction rule: reachable_store.induct)
  case empty
  then show ?case
    by (simp add: store_inv_def empty_store_def ids_distinct_def kinds_ok_def works_have_pages_def)
next
  case (scanned st e target_dir)
  then show ?case by (simp add: run_scan_inv)
next
  case (liked d type_s id_s liked)
  then show ?case by (simp add: toggle_like_inv)
qed

section \<open>Slices, limits and the selection of \<open>fetch_ids\<close>\<close>

lemma py_index_diff: "0 \<le> l \<Longrightarrow> py_index n (a + l) - py_index n a \<le> nat l"
  unfolding py_index_def by (cases "a < 0"; cases "a + l < 0") auto

lemma py_slice_length: "0 \<le> l \<Longrightarrow> length (py_slice xs a (a + l)) \<le> nat l"
proof -
  assume "0 \<le> l"
  from py_index_diff[OF this, of "length xs" a]
  show ?thesis unfolding py_slice_def by simp
qed

lemma py_slice_subset: "set (py_slice xs a b) \<subseteq> set xs"
  unfolding py_slice_def by (meson set_take_subset set_drop_subset subset_trans)

lemma py_slice_map: "map f (py_slice xs a b) = py_slice (map f xs) a b"
  by (simp add: py_slice_def take_map drop_map)

lemma py_slice_sorted: "sorted xs \<Longrightarrow> sorted (py_slice xs a b)" for xs :: "int list"
  by (simp add: py_slice_def sorted_wrt_take sorted_wrt_drop)

lemma py_slice_sorted_rev: "sorted (rev xs) \<Longrightarrow> sorted (rev (py_slice xs a b))" for xs :: "int list"
  by (simp add: py_slice_def sorted_wrt_rev sorted_wrt_take sorted_wrt_drop)

lemma sql_limit_subset: "set (sql_limit k xs) \<subseteq> set xs"
  by (auto simp: sql_limit_def dest: in_set_takeD)

lemma sql_order_by_set: "set (sql_order_by order_s rows) = set rows"
  by (simp add: sql_order_by_def)

lemma table_results_selected:
  assumes "tt \<in> set (tables_of (rq_source rq))"
    and "x \<in> set (table_results d rq op order_s fetch_limit fetch_target tt)"
  shows "selected d rq op fetch_target x"
proof -
  obtain t_name t_type where tt: "tt = (t_name, t_type)" by (cases tt)
  define L where "L = sql_limit (fetch_limit + rq_offset rq)
             (sql_order_by order_s
                (filter (build_query d rq op fetch_target t_name) (table_rows d t_name)))"
  from assms(2) have "x \<in> (\<lambda>r. (t_type, col_id r, col_file_mtime r)) ` set L"
    unfolding tt table_results_def L_def by (simp only: prod.case set_map)
  then obtain r where r0: "r \<in> set L" and x: "x = (t_type, col_id r, col_file_mtime r)"
    by (rule imageE)
  from r0 have r: "r \<in> set (sql_limit (fetch_limit + rq_offset rq)
             (sql_order_by order_s
                (filter (build_query d rq op fetch_target t_name) (table_rows d t_name))))"
    by (simp only: L_def)
  from subsetD[OF sql_limit_subset r] have "r \<in> set (sql_order_by order_s
                (filter (build_query d rq op fetch_target t_name) (table_rows d t_name)))" .
  then have "r \<in> set (table_rows d t_name)" "build_query d rq op fetch_target t_name r"
    by (simp_all add: sql_order_by_set)
  with x assms(1) tt show ?thesis unfolding selected_def by force
qed

lemma sort_results_set: "set (sort_results rv xs) = set xs"
  by (simp add: sort_results_def)

lemma fetch_ids_selected:
  assumes "x \<in> set (fetch_ids d rq fetch_dir fetch_limit fetch_target)"
  shows "selected d rq (fst (op_and_order (rq_sort rq) fetch_dir)) fetch_target x"
proof -
  obtain op order_s where oo: "op_and_order (rq_sort rq) fetch_dir = (op, order_s)"
    by (cases "op_and_order (rq_sort rq) fetch_dir")
  from assms have "x \<in> set (concat (map (table_results d rq op order_s fetch_limit fetch_target)
                                 (tables_of (rq_source rq))))"
  proof -
    from assms have "x \<in> set (py_slice (sort_results (order_s = ''DESC'')
            (concat (map (table_results d rq op order_s fetch_limit fetch_target)
                                 (tables_of (rq_source rq)))))
              (rq_offset rq) (rq_offset rq + fetch_limit))"
      unfolding fetch_ids_def oo by (simp add: Let_def)
    from subsetD[OF py_slice_subset this] have "x \<in> set (sort_results (order_s = ''DESC'')
            (concat (map (table_results d rq op order_s fetch_limit fetch_target)
                                 (tables_of (rq_source rq)))))" .
    then show ?thesis by (simp only: sort_results_set)
  qed
  then obtain tt where "tt \<in> set (tables_of (rq_source rq))"
    "x \<in> set (table_results d rq op order_s fetch_limit fetch_target tt)" by auto
  from table_results_selected[OF this] show ?thesis by (simp add: oo)
qed

lemma fetch_ids_length:
  "0 \<le> fetch_limit \<Longrightarrow> length (fetch_ids d rq fetch_dir fetch_limit fetch_target) \<le> nat fetch_limit"
  by (auto simp: fetch_ids_def Let_def py_slice_length split: prod.splits)

lemma sort_results_sorted:
  "sorted (map (\<lambda>x. snd (snd x)) (sort_results False xs))"
  "sorted (rev (map (\<lambda>x. snd (snd x)) (sort_results True xs)))"
  by (simp_all add: sort_results_def sorted_desc_key)

lemma fetch_ids_sorted:
  "snd (op_and_order (rq_sort rq) fetch_dir) = ''DESC''
     \<Longrightarrow> sorted (rev (map (\<lambda>x. snd (snd x)) (fetch_ids d rq fetch_dir fetch_limit fetch_target)))"
  "snd (op_and_order (rq_sort rq) fetch_dir) \<noteq> ''DESC''
     \<Longrightarrow> sorted (map (\<lambda>x. snd (snd x)) (fetch_ids d rq fetch_dir fetch_limit fetch_target))"
  by (auto simp: fetch_ids_def Let_def py_slice_map py_slice_sorted py_slice_sorted_rev
        sort_results_sorted split: prod.splits)

lemma selected_target:
  "selected d rq op (Some t) x \<Longrightarrow> sql_compare op (snd (snd x)) t"
  by (auto simp: selected_def build_query_def where_target_def)

section \<open>Hydration and the content filters\<close>

lemma find_distinct_key:
  "distinct (map key xs) \<Longrightarrow> w \<in> set xs \<Longrightarrow> find (\<lambda>r. key r = key w) xs = Some w"
  by (induction xs) (auto simp: image_iff)

lemma tables_of_cases:
  "tt \<in> set (tables_of src) \<Longrightarrow>
     tt = (''pixiv_works'', ''pixiv'') \<or> tt = (''tweets'', ''tweet'') \<or> tt = (''other_works'', ''other'')"
  by (auto simp: tables_of_def split: if_splits)

lemma hydrate_pixiv:
  assumes "store_inv d" and "w \<in> set (pixiv_works d)"
    and "where_filter d rq ''pixiv_works'' (RWork w)"
  shows "\<exists>it. hydrate to_url d (''pixiv'', pw_id w, pw_file_mtime w) = [it]
           \<and> it_type it = ''pixiv'' \<and> it_id it = pw_id w \<and> it_timestamp it = pw_file_mtime w
           \<and> (rq_filter_type rq = ''video'' \<longrightarrow> video_ok it)
           \<and> (rq_filter_type rq = ''image'' \<longrightarrow> image_ok it)"
proof -
  from assms(1) have dist: "distinct (map pw_id (pixiv_works d))"
    and kinds: "list_all (\<lambda>p. kind_ok (pp_media_type p)) (pixiv_pages d)"
    and pages: "list_all (has_page (pixiv_pages d)) (pixiv_works d)"
    by (simp_all add: store_inv_def ids_distinct_def kinds_ok_def works_have_pages_def)
  let ?ps = "filter (\<lambda>p. pp_work_id p = pw_id w) (pixiv_pages d)"
  let ?it = "\<lparr>it_type = ''pixiv'', it_id = pw_id w, it_timestamp = pw_file_mtime w,
                    it_is_liked = (pw_is_liked w \<noteq> 0), it_folder = pw_folder_name w,
                    it_media =
                      map (\<lambda>p. \<lparr>me_url = to_url (pp_file_path p), me_type = pp_media_type p,
                                 me_index = Some (pp_page_num p)\<rparr>)
                        (sort_key pp_page_num ?ps),
                    it_fields =
                      [(''title'', pw_title w), (''author'', pw_author w),
                       (''pixiv_url'', ''https://www.pixiv.net/artworks/'' @ pw_id w)]\<rparr>"
  have h: "hydrate to_url d (''pixiv'', pw_id w, pw_file_mtime w) = [?it]"
    using find_distinct_key[OF dist assms(2)] by (simp add: hydrate_def)
  have types: "me_type ` set (it_media ?it) = pp_media_type ` set ?ps"
    by (simp add: image_image)
  have v: "video_ok ?it" if "rq_filter_type rq = ''video''"
  proof -
    from assms(3) that have "has_video_page d (pw_id w)" by (simp add: where_filter_def)
    then obtain p where "p \<in> set ?ps" "pp_media_type p = ''video''"
      by (auto simp: has_video_page_def list_ex_iff)
    then have "''video'' \<in> pp_media_type ` set ?ps" by force
    with types have "''video'' \<in> me_type ` set (it_media ?it)" by simp
    then show ?thesis unfolding video_ok_def list_ex_iff by force
  qed
  have i: "image_ok ?it" if "rq_filter_type rq = ''image''"
  proof -
    from assms(3) that have nv: "\<not> has_video_page d (pw_id w)" by (simp add: where_filter_def)
    from pages assms(2) obtain p where p: "p \<in> set ?ps"
      by (auto simp: list_all_iff has_page_def list_ex_iff)
    with kinds have "kind_ok (pp_media_type p)" by (simp add: list_all_iff)
    moreover from nv p have "pp_media_type p \<noteq> ''video''"
      by (auto simp: has_video_page_def list_ex_iff)
    ultimately have "pp_media_type p = ''image''" by (simp add: kind_ok_def)
    with p have "''image'' \<in> pp_media_type ` set ?ps" by force
    with types have "''image'' \<in> me_type ` set (it_media ?it)" by simp
    then show ?thesis unfolding image_ok_def list_ex_iff by force
  qed
  from h v i show ?thesis by (intro exI[of _ ?it]) simp
qed

lemma hydrate_tweet:
  assumes "store_inv d" and "w \<in> set (tweets d)"
    and "where_filter d rq ''tweets'' (RTweet w)"
  shows "\<exists>it. hydrate to_url d (''tweet'', tw_id w, tw_file_mtime w) = [it]
           \<and> it_type it = ''tweet'' \<and> it_id it = tw_id w \<and> it_timestamp it = tw_file_mtime w
           \<and> (rq_filter_type rq = ''video'' \<longrightarrow> video_ok it)
           \<and> (rq_filter_type rq = ''image'' \<longrightarrow> image_ok it)"
proof -
  from assms(1) have dist: "distinct (map tw_id (tweets d))"
    and kinds: "list_all (\<lambda>m. kind_ok (tm_media_type m)) (tweet_media d)"
    by (simp_all add: store_inv_def ids_distinct_def kinds_ok_def)
  let ?ms = "filter (\<lambda>m. tm_tweet_id m = tw_id w) (tweet_media d)"
  let ?it = "\<lparr>it_type = ''tweet'', it_id = tw_id w, it_timestamp = tw_file_mtime w,
                    it_is_liked = (tw_is_liked w \<noteq> 0), it_folder = tw_folder_name w,
                    it_media =
                      map (\<lambda>m. \<lparr>me_url = to_url (tm_file_path m), me_type = tm_media_type m,
                                 me_index = None\<rparr>) ?ms,
                    it_fields =
                      [(''user_name'', tw_user_name w), (''text'', tw_text w),
                       (''tweet_url'', tw_tweet_url w),
                       (''avatar_url'', tw_avatar_url w)]\<rparr>"
  have h: "hydrate to_url d (''tweet'', tw_id w, tw_file_mtime w) = [?it]"
    using find_distinct_key[OF dist assms(2)] by (simp add: hydrate_def)
  have types: "me_type ` set (it_media ?it) = tm_media_type ` set ?ms"
    by (simp add: image_image)
  have v: "video_ok ?it" if "rq_filter_type rq = ''video''"
  proof -
    from assms(3) that have "has_video_media d (tw_id w)" by (simp add: where_filter_def)
    then obtain m where "m \<in> set ?ms" "tm_media_type m = ''video''"
      by (auto simp: has_video_media_def list_ex_iff)
    then have "''video'' \<in> tm_media_type ` set ?ms" by force
    with types have "''video'' \<in> me_type ` set (it_media ?it)" by simp
    then show ?thesis unfolding video_ok_def list_ex_iff by force
  qed
  have i: "image_ok ?it" if "rq_filter_type rq = ''image''"
  proof -
    from assms(3) that have hm: "has_media d (tw_id w)" and nv: "\<not> has_video_media d (tw_id w)"
      by (simp_all add: where_filter_def)
    from hm obtain m where m: "m \<in> set ?ms" by (auto simp: has_media_def list_ex_iff)
    have allnv: "\<forall>m \<in> set ?ms. tm_media_type m \<noteq> ''video''"
      using nv by (auto simp: has_video_media_def list_ex_iff)
    from m kinds have "kind_ok (tm_media_type m)" by (simp add: list_all_iff)
    with allnv m have "tm_media_type m = ''image''" by (simp add: kind_ok_def)
    with m have "''image'' \<in> tm_media_type ` set ?ms" by force
    with types have a: "''image'' \<in> me_type ` set (it_media ?it)" by simp
    from m have b: "it_media ?it \<noteq> []" by (auto simp: filter_empty_conv)
    from allnv have c: "list_all (\<lambda>m. me_type m \<noteq> ''video'') (it_media ?it)"
      by (simp add: list_all_iff)
    from a b c show ?thesis unfolding image_ok_def list_ex_iff by force
  qed
  from h v i show ?thesis by (intro exI[of _ ?it]) simp
qed

lemma hydrate_other:
  assumes "store_inv d" and "w \<in> set (other_works d)"
    and "where_filter d rq ''other_works'' (ROther w)"
  shows "\<exists>it. hydrate to_url d (''other'', ow_id w, ow_file_mtime w) = [it]
           \<and> it_type it = ''other'' \<and> it_id it = ow_id w \<and> it_timestamp it = ow_file_mtime w
           \<and> (rq_filter_type rq = ''video'' \<longrightarrow> video_ok it)
           \<and> (rq_filter_type rq = ''image'' \<longrightarrow> image_ok it)"
proof -
  from assms(1) have dist: "distinct (map ow_id (other_works d))"
    by (simp add: store_inv_def ids_distinct_def)
  have h: "hydrate to_url d (''other'', ow_id w, ow_file_mtime w) =
             [\<lparr>it_type = ''other'', it_id = ow_id w, it_timestamp = ow_file_mtime w,
                    it_is_liked = (ow_is_liked w \<noteq> 0), it_folder = ow_folder_name w,
                    it_media =
                      [\<lparr>me_url = to_url (ow_file_path w), me_type = ow_media_type w,
                        me_index = None\<rparr>],
                    it_fields = [(''title'', ow_filename w)]\<rparr>]"
    using find_distinct_key[OF dist assms(2)] by (simp add: hydrate_def)
  from assms(3) show ?thesis
    unfolding h by (auto simp: where_filter_def video_ok_def image_ok_def)
qed

lemma hydrate_selected:
  assumes "store_inv d" and "selected d rq op fetch_target x"
  shows "\<exists>it. hydrate to_url d x = [it]
           \<and> it_type it = fst x \<and> it_id it = fst (snd x) \<and> it_timestamp it = snd (snd x)
           \<and> (rq_filter_type rq = ''video'' \<longrightarrow> video_ok it)
           \<and> (rq_filter_type rq = ''image'' \<longrightarrow> image_ok it)"
proof -
  from assms(2) obtain tt r where tt: "tt \<in> set (tables_of (rq_source rq))"
    and r: "r \<in> set (table_rows d (fst tt))"
    and q: "build_query d rq op fetch_target (fst tt) r"
    and x: "x = (snd tt, col_id r, col_file_mtime r)"
    unfolding selected_def by blast
  from q have wf: "where_filter d rq (fst tt) r" by (simp add: build_query_def)
  from tables_of_cases[OF tt] show ?thesis
  proof (elim disjE)
    assume t: "tt = (''pixiv_works'', ''pixiv'')"
    with r obtain w where w: "r = RWork w" "w \<in> set (pixiv_works d)"
      by (auto simp: table_rows_def)
    from hydrate_pixiv[OF assms(1) w(2), of rq to_url] wf show ?thesis
      unfolding x t w(1) by simp
  next
    assume t: "tt = (''tweets'', ''tweet'')"
    with r obtain w where w: "r = RTweet w" "w \<in> set (tweets d)"
      by (auto simp: table_rows_def)
    from hydrate_tweet[OF assms(1) w(2), of rq to_url] wf show ?thesis
      unfolding x t w(1) by simp
  next
    assume t: "tt = (''other_works'', ''other'')"
    with r obtain w where w: "r = ROther w" "w \<in> set (other_works d)"
      by (auto simp: table_rows_def)
    from hydrate_other[OF assms(1) w(2), of rq to_url] wf show ?thesis
      unfolding x t w(1) by simp
  qed
qed




section \<open>Around requests\<close>

lemma hydrate_triples:
  assumes "store_inv d" and "\<forall>x \<in> set xs. \<exists>op ft. selected d rq op ft x"
  shows "map triple (concat (map (hydrate to_url d) xs)) = xs"
  using assms(2)
proof (induction xs)
  case Nil
  then show ?case by simp
next
  case (Cons x xs)
  from Cons.prems obtain op ft where "selected d rq op ft x" by auto
  from hydrate_selected[OF assms(1) this, of to_url] obtain it where
    "hydrate to_url d x = [it]" "triple it = x" by (auto simp: triple_def)
  with Cons show ?case by simp
qed

lemma fetch_ids_hydrate:
  assumes "store_inv d"
  shows "map triple (concat (map (hydrate to_url d) (fetch_ids d rq fetch_dir l ft)))
           = fetch_ids d rq fetch_dir l ft"
    and "map triple (concat (map (hydrate to_url d) (rev (fetch_ids d rq fetch_dir l ft))))
           = rev (fetch_ids d rq fetch_dir l ft)"
proof -
  have sel: "\<forall>x \<in> set (fetch_ids d rq fetch_dir l ft). \<exists>op ft. selected d rq op ft x"
    using fetch_ids_selected[of _ d rq fetch_dir l ft] by blast
  then have sel': "\<forall>x \<in> set (rev (fetch_ids d rq fetch_dir l ft)). \<exists>op ft. selected d rq op ft x"
    by simp
  from hydrate_triples[OF assms sel]
  show "map triple (concat (map (hydrate to_url d) (fetch_ids d rq fetch_dir l ft)))
           = fetch_ids d rq fetch_dir l ft" .
  from hydrate_triples[OF assms sel']
  show "map triple (concat (map (hydrate to_url d) (rev (fetch_ids d rq fetch_dir l ft))))
           = rev (fetch_ids d rq fetch_dir l ft)" .
qed

lemma timestamps_of_triples: "map it_timestamp its = map (\<lambda>x. snd (snd x)) (map triple its)"
  by (simp add: triple_def o_def)

lemma fetch_ids_side:
  assumes "x \<in> set (fetch_ids d rq fetch_dir l (Some t))"
  shows "sql_compare (fst (op_and_order (rq_sort rq) fetch_dir)) (snd (snd x)) t"
  using selected_target[OF fetch_ids_selected[OF assms]] .

text \<open>The two halves of an around request, as lists of triples.\<close>

lemma around_ids_desc:
  fixes d :: store and t :: int and rq :: stream_req and h :: int
  assumes "rq_sort rq = ''desc''" and "0 \<le> h"
  defines "A \<equiv> rev (fetch_ids d rq ''newer'' h (Some t))"
    and "B \<equiv> fetch_ids d rq ''older'' h (Some t)"
  shows "length A \<le> nat h" "length B \<le> nat h"
    "\<forall>x \<in> set A. t < snd (snd x)" "\<forall>x \<in> set B. snd (snd x) \<le> t"
    "sorted (rev (map (\<lambda>x. snd (snd x)) (A @ B)))"
proof -
  have on: "op_and_order (rq_sort rq) ''newer'' = (''>'', ''ASC'')"
    and oo: "op_and_order (rq_sort rq) ''older'' = (''<='', ''DESC'')"
    using assms(1) by (simp_all add: op_and_order_def)
  show "length A \<le> nat h" "length B \<le> nat h"
    using fetch_ids_length[OF assms(2)] by (simp_all add: A_def B_def)
  show a: "\<forall>x \<in> set A. t < snd (snd x)"
    using fetch_ids_side[of _ d rq "''newer''" h t] by (auto simp: A_def on sql_compare_def)
  show b: "\<forall>x \<in> set B. snd (snd x) \<le> t"
    using fetch_ids_side[of _ d rq "''older''" h t] by (auto simp: B_def oo sql_compare_def)
  have sa: "sorted (map (\<lambda>x. snd (snd x)) (fetch_ids d rq ''newer'' h (Some t)))"
    by (rule fetch_ids_sorted(2)) (simp add: on)
  have sb: "sorted (rev (map (\<lambda>x. snd (snd x)) B))"
    unfolding B_def by (rule fetch_ids_sorted(1)) (simp add: oo)
  from a b sa sb show "sorted (rev (map (\<lambda>x. snd (snd x)) (A @ B)))"
    by (fastforce simp: A_def sorted_append rev_map)
qed

lemma around_ids_asc:
  fixes d :: store and t :: int and rq :: stream_req and h :: int
  assumes "rq_sort rq = ''asc''" and "0 \<le> h"
  defines "A \<equiv> fetch_ids d rq ''newer'' h (Some t)"
    and "B \<equiv> rev (fetch_ids d rq ''older'' h (Some t))"
  shows "length A \<le> nat h" "length B \<le> nat h"
    "\<forall>x \<in> set A. snd (snd x) < t" "\<forall>x \<in> set B. t \<le> snd (snd x)"
    "sorted (rev (map (\<lambda>x. snd (snd x)) A))" "sorted (rev (map (\<lambda>x. snd (snd x)) B))"
proof -
  have on: "op_and_order (rq_sort rq) ''newer'' = (''<'', ''DESC'')"
    and oo: "op_and_order (rq_sort rq) ''older'' = (''>='', ''ASC'')"
    using assms(1) by (simp_all add: op_and_order_def)
  show "length A \<le> nat h" "length B \<le> nat h"
    using fetch_ids_length[OF assms(2)] by (simp_all add: A_def B_def)
  show "\<forall>x \<in> set A. snd (snd x) < t"
    using fetch_ids_side[of _ d rq "''newer''" h t] by (auto simp: A_def on sql_compare_def)
  show "\<forall>x \<in> set B. t \<le> snd (snd x)"
    using fetch_ids_side[of _ d rq "''older''" h t] by (auto simp: B_def oo sql_compare_def)
  show "sorted (rev (map (\<lambda>x. snd (snd x)) A))"
    unfolding A_def by (rule fetch_ids_sorted(1)) (simp add: on)
  have "sorted (map (\<lambda>x. snd (snd x)) (fetch_ids d rq ''older'' h (Some t)))"
    by (rule fetch_ids_sorted(2)) (simp add: oo)
  then show "sorted (rev (map (\<lambda>x. snd (snd x)) B))"
    by (simp add: B_def rev_map)
qed

lemma triples_transfer:
  assumes "map triple its = xs"
  shows "length its = length xs"
    and "map it_timestamp its = map (\<lambda>x. snd (snd x)) xs"
    and "(\<forall>x \<in> set xs. P (snd (snd x))) \<Longrightarrow> (\<forall>it \<in> set its. P (it_timestamp it))"
proof -
  show "length its = length xs" using assms by (metis length_map)
  show "map it_timestamp its = map (\<lambda>x. snd (snd x)) xs"
    using assms timestamps_of_triples[of its] by simp
  assume "\<forall>x \<in> set xs. P (snd (snd x))"
  then show "\<forall>it \<in> set its. P (it_timestamp it)"
    using assms by (force simp: triple_def)
qed

text \<open>
  C7 (as amended). On every store the program produces, an around request with an anchor
  \<open>t\<close> and a page size \<open>N\<close> that is not negative returns at most \<open>N\<close> records, a first
  half followed by a second half of at most \<open>N div 2\<close> records each. Newest-first: the
  first half holds records strictly newer than the anchor, the second records at or older
  than the anchor, and the whole list is in descending order of timestamp. Oldest-first:
  the first half holds records strictly older than the anchor, the second records at or
  newer than the anchor, and each half is ordered by timestamp.
\<close>

theorem around_halves:
  assumes "reachable_store d" and "rq_direction rq = ''around''"
    and "rq_target_date rq = Some t" and "0 \<le> rq_limit rq"
  shows "\<exists>A B. get_stream to_url d rq = A @ B
           \<and> int (length A) \<le> rq_limit rq div 2 \<and> int (length B) \<le> rq_limit rq div 2
           \<and> int (length (get_stream to_url d rq)) \<le> rq_limit rq
           \<and> (rq_sort rq = ''desc'' \<longrightarrow>
                 (\<forall>it \<in> set A. t < it_timestamp it) \<and> (\<forall>it \<in> set B. it_timestamp it \<le> t)
                 \<and> sorted (rev (map it_timestamp (A @ B))))
           \<and> (rq_sort rq = ''asc'' \<longrightarrow>
                 (\<forall>it \<in> set A. it_timestamp it < t) \<and> (\<forall>it \<in> set B. t \<le> it_timestamp it)
                 \<and> (sorted (map it_timestamp A) \<or> sorted (rev (map it_timestamp A)))
                 \<and> (sorted (map it_timestamp B) \<or> sorted (rev (map it_timestamp B))))"
proof -
  from reachable_store_inv[OF assms(1)] have inv: "store_inv d" .
  define h where "h = rq_limit rq div 2"
  from assms(4) have h0: "0 \<le> h" and h2: "h + h \<le> rq_limit rq" by (simp_all add: h_def)
  let ?newer = "fetch_ids d rq ''newer'' h (Some t)"
  let ?older = "fetch_ids d rq ''older'' h (Some t)"
  show ?thesis
  proof (cases "rq_sort rq = ''desc''")
    case True
    define A where "A = concat (map (hydrate to_url d) (rev ?newer))"
    define B where "B = concat (map (hydrate to_url d) ?older)"
    have g: "get_stream to_url d rq = A @ B"
      using assms(2,3) True by (simp add: get_stream_def final_ids_def Let_def A_def B_def h_def)
    have ta: "map triple A = rev ?newer" unfolding A_def by (rule fetch_ids_hydrate(2)[OF inv])
    have tb: "map triple B = ?older" unfolding B_def by (rule fetch_ids_hydrate(1)[OF inv])
    note f = around_ids_desc[OF True h0, of d t]
    have la: "int (length A) \<le> h" using triples_transfer(1)[OF ta] f(1) h0 by simp
    have lb: "int (length B) \<le> h" using triples_transfer(1)[OF tb] f(2) h0 by simp
    have sa: "\<forall>it \<in> set A. t < it_timestamp it"
      using triples_transfer(3)[OF ta, of "\<lambda>m. t < m"] f(3) by blast
    have sb: "\<forall>it \<in> set B. it_timestamp it \<le> t"
      using triples_transfer(3)[OF tb, of "\<lambda>m. m \<le> t"] f(4) by blast
    have so: "sorted (rev (map it_timestamp (A @ B)))"
      using f(5) triples_transfer(2)[OF ta] triples_transfer(2)[OF tb] by simp
    have "rq_sort rq \<noteq> ''asc''" using True by simp
    with g la lb h2 sa sb so show ?thesis
      unfolding h_def[symmetric] by (intro exI[of _ A] exI[of _ B]) auto
  next
    case False
    define A where "A = concat (map (hydrate to_url d) ?newer)"
    define B where "B = concat (map (hydrate to_url d) (rev ?older))"
    have g: "get_stream to_url d rq = A @ B"
      using assms(2,3) False by (simp add: get_stream_def final_ids_def Let_def A_def B_def h_def)
    have ta: "map triple A = ?newer" unfolding A_def by (rule fetch_ids_hydrate(1)[OF inv])
    have tb: "map triple B = rev ?older" unfolding B_def by (rule fetch_ids_hydrate(2)[OF inv])
    have la: "int (length A) \<le> h"
      using triples_transfer(1)[OF ta] fetch_ids_length[OF h0, of d rq "''newer''" "Some t"] h0
      by simp
    have lb: "int (length B) \<le> h"
      using triples_transfer(1)[OF tb] fetch_ids_length[OF h0, of d rq "''older''" "Some t"] h0
      by simp
    have asc: "(\<forall>it \<in> set A. it_timestamp it < t) \<and> (\<forall>it \<in> set B. t \<le> it_timestamp it)
                 \<and> (sorted (map it_timestamp A) \<or> sorted (rev (map it_timestamp A)))
                 \<and> (sorted (map it_timestamp B) \<or> sorted (rev (map it_timestamp B)))"
      if s: "rq_sort rq = ''asc''"
    proof -
      note f = around_ids_asc[OF s h0, of d t]
      have sa: "\<forall>it \<in> set A. it_timestamp it < t"
        using triples_transfer(3)[OF ta, of "\<lambda>m. m < t"] f(3) by blast
      have sb: "\<forall>it \<in> set B. t \<le> it_timestamp it"
        using triples_transfer(3)[OF tb, of "\<lambda>m. t \<le> m"] f(4) by blast
      have oa: "sorted (rev (map it_timestamp A))"
        using f(5) triples_transfer(2)[OF ta] by simp
      have ob: "sorted (rev (map it_timestamp B))"
        using f(6) triples_transfer(2)[OF tb] by simp
      from sa sb oa ob show ?thesis by blast
    qed
    from g la lb h2 asc False show ?thesis
      unfolding h_def[symmetric] by (intro exI[of _ A] exI[of _ B]) auto
  qed
qed

text \<open>
  Oldest-first, page size 4, anchor 5 over the timestamps 1 to 9: the response is 4, 3, 6,
  5, which is not in ascending order, and its strict half is the older side. With page
  size \<open>-2\<close> the response has seven records.
\<close>

theorem around_counterexample:
  "map it_timestamp (get_stream (\<lambda>p. p) d_nine (rq_around ''asc'' 4)) = [4, 3, 6, 5]
   \<and> \<not> sorted (map it_timestamp (get_stream (\<lambda>p. p) d_nine (rq_around ''asc'' 4)))
   \<and> length (get_stream (\<lambda>p. p) d_nine (rq_around ''desc'' (- 2))) = 7
   \<and> \<not> int (length (get_stream (\<lambda>p. p) d_nine (rq_around ''desc'' (- 2)))) \<le> - 2"
proof -
  have a: "map it_timestamp (get_stream (\<lambda>p. p) d_nine (rq_around ''asc'' 4)) = [4, 3, 6, 5]"
    by code_simp
  have b: "length (get_stream (\<lambda>p. p) d_nine (rq_around ''desc'' (- 2))) = 7"
    by code_simp
  show ?thesis unfolding a b by simp
qed

theorem around_halves_witness:
  "\<exists>A B. map it_timestamp (A @ B) = [7, 6, 5, 4]
         \<and> get_stream (\<lambda>p. p) d_nine (rq_around ''desc'' 4) = A @ B
         \<and> int (length A) \<le> 2 \<and> int (length B) \<le> 2
         \<and> (\<forall>it \<in> set A. 5 < it_timestamp it) \<and> (\<forall>it \<in> set B. it_timestamp it \<le> 5)
         \<and> sorted (rev (map it_timestamp (A @ B)))"
proof -
  have "reachable_store (db st_idle)"
    using reachable_store.empty by (simp add: st_idle_def)
  from reachable_store.scanned[OF this, of e_nine "''/t''"]
  have r: "reachable_store d_nine" by (simp add: d_nine_def)
  have ts: "map it_timestamp (get_stream (\<lambda>p. p) d_nine (rq_around ''desc'' 4)) = [7, 6, 5, 4]"
    by code_simp
  have dir: "rq_direction (rq_around ''desc'' 4) = ''around''"
    and tg: "rq_target_date (rq_around ''desc'' 4) = Some 5"
    and lim: "0 \<le> rq_limit (rq_around ''desc'' 4)"
    and srt: "rq_sort (rq_around ''desc'' 4) = ''desc''"
    and l4: "rq_limit (rq_around ''desc'' 4) = 4"
    by (simp_all add: rq_around_def)
  from around_halves[OF r dir tg lim, of "\<lambda>p. p"] obtain A B where
    g: "get_stream (\<lambda>p. p) d_nine (rq_around ''desc'' 4) = A @ B"
    and la: "int (length A) \<le> 2" and lb: "int (length B) \<le> 2"
    and sa: "\<forall>it \<in> set A. 5 < it_timestamp it" and sb: "\<forall>it \<in> set B. it_timestamp it \<le> 5"
    and so: "sorted (rev (map it_timestamp (A @ B)))"
    unfolding srt l4 by auto
  from ts g have "map it_timestamp (A @ B) = [7, 6, 5, 4]" by simp
  with g la lb sa sb so show ?thesis by (intro exI[of _ A] exI[of _ B]) simp
qed

section \<open>A second pass over an unchanged tree\<close>

text \<open>
  When no \<open>os.path.getmtime\<close> fails, every worker returns, and what it returns is
  determined by the snapshots of the pass: the posts its sidecars create, the works of the
  files no post uses, and an unclassified row for every other file outside a pixiv folder.
\<close>


lemma tweet_step_ids:
  "tw_id ` fst ` set (fst (tweet_step e root fn mfs ex jf acc)) =
     tw_id ` fst ` set (fst acc) \<union> {tid. creates e root ex jf tid}"
  by (cases acc)
    (auto simp: tweet_step_def creates_def loads_def tweet_entry_id image_Un
          split: option.splits)

lemma tweet_step_used:
  "snd (tweet_step e root fn mfs ex jf acc) =
     snd acc \<union> {mf. \<exists>tid. marks e root ex jf tid \<and> mf \<in> set (media_map_for_tweets mfs tid)}"
  by (cases acc) (auto simp: tweet_step_def marks_def loads_def split: option.splits)

lemma tweet_loop_ids:
  "tw_id ` fst ` set (fst (tweet_loop e root fn mfs ex jfs acc)) =
     tw_id ` fst ` set (fst acc) \<union> {tid. \<exists>jf \<in> set jfs. creates e root ex jf tid}"
proof (induction jfs arbitrary: acc)
  case Nil
  then show ?case by simp
next
  case (Cons jf jfs)
  show ?case
    unfolding tweet_loop.simps Cons.IH tweet_step_ids by auto
qed

lemma tweet_loop_used:
  "snd (tweet_loop e root fn mfs ex jfs acc) =
     snd acc \<union> {mf. \<exists>jf \<in> set jfs. \<exists>tid. marks e root ex jf tid
                        \<and> mf \<in> set (media_map_for_tweets mfs tid)}"
proof (induction jfs arbitrary: acc)
  case Nil
  then show ?case by simp
next
  case (Cons jf jfs)
  show ?case
    unfolding tweet_loop.simps Cons.IH tweet_step_used by auto
qed

lemma pixiv_step_total:
  assumes "\<forall>p. getmtime_ms e p \<noteq> None"
  shows "\<exists>buf'. pixiv_step e root fn aid an ex mf (buf, used) = Inr (buf', insert mf used)
           \<and> fst ` set buf' =
               fst ` set buf \<union> (if mf \<notin> used \<and> fst (pixiv_wid e aid mf) \<notin> ex
                                  then {fst (pixiv_wid e aid mf)} else {})"
proof -
  obtain wid p_num where w: "pixiv_wid e aid mf = (wid, p_num)" by (cases "pixiv_wid e aid mf")
  from assms obtain mtime where m: "getmtime_ms e (path_join root mf) = Some mtime" by auto
  show ?thesis
    using w m by (auto simp: pixiv_step_def insert_absorb AList.dom_update)
qed

lemma pixiv_loop_total:
  assumes "\<forall>p. getmtime_ms e p \<noteq> None"
  shows "\<exists>buf'. pixiv_loop e root fn aid an ex ms (buf, used) = Inr (buf', used \<union> set ms)
           \<and> fst ` set buf' =
               fst ` set buf \<union> {fst (pixiv_wid e aid mf) | mf.
                                   mf \<in> set ms \<and> mf \<notin> used \<and> fst (pixiv_wid e aid mf) \<notin> ex}"
proof (induction ms arbitrary: buf used)
  case Nil
  then show ?case by simp
next
  case (Cons mf ms)
  from pixiv_step_total[OF assms, of root fn aid an ex mf buf used] obtain buf1 where
    s: "pixiv_step e root fn aid an ex mf (buf, used) = Inr (buf1, insert mf used)"
    and k1: "fst ` set buf1 =
               fst ` set buf \<union> (if mf \<notin> used \<and> fst (pixiv_wid e aid mf) \<notin> ex
                                  then {fst (pixiv_wid e aid mf)} else {})" by blast
  from Cons.IH[of buf1 "insert mf used"] obtain buf' where
    l: "pixiv_loop e root fn aid an ex ms (buf1, insert mf used) = Inr (buf', insert mf used \<union> set ms)"
    and k: "fst ` set buf' =
               fst ` set buf1 \<union> {fst (pixiv_wid e aid mf') | mf'.
                                   mf' \<in> set ms \<and> mf' \<notin> insert mf used
                                   \<and> fst (pixiv_wid e aid mf') \<notin> ex}" by blast
  have "pixiv_loop e root fn aid an ex (mf # ms) (buf, used) = Inr (buf', used \<union> set (mf # ms))"
    using s l by simp
  moreover have "fst ` set buf' =
               fst ` set buf \<union> {fst (pixiv_wid e aid mf') | mf'.
                                   mf' \<in> set (mf # ms) \<and> mf' \<notin> used
                                   \<and> fst (pixiv_wid e aid mf') \<notin> ex}"
    unfolding k k1 by (auto split: if_splits)
  ultimately show ?case by blast
qed

lemma other_step_total:
  assumes "\<forall>p. getmtime_ms e p \<noteq> None"
  shows "\<exists>ob'. other_step e root fn ex_o used mf ob = Inr ob' \<and> set ob \<subseteq> set ob'
           \<and> (mf \<notin> used \<longrightarrow> md5_hex e (path_join root mf) \<notin> ex_o \<longrightarrow>
                (\<exists>r \<in> set ob'. ow_id r = md5_hex e (path_join root mf)
                                \<and> ow_file_path r = path_join root mf))"
proof -
  from assms obtain mtime where m: "getmtime_ms e (path_join root mf) = Some mtime" by auto
  show ?thesis using m by (auto simp: other_step_def)
qed

lemma other_loop_total:
  assumes "\<forall>p. getmtime_ms e p \<noteq> None"
  shows "\<exists>ob'. other_loop e root fn ex_o used ms ob = Inr ob' \<and> set ob \<subseteq> set ob'
           \<and> (\<forall>mf \<in> set ms. mf \<notin> used \<longrightarrow> md5_hex e (path_join root mf) \<notin> ex_o \<longrightarrow>
                (\<exists>r \<in> set ob'. ow_id r = md5_hex e (path_join root mf)
                                \<and> ow_file_path r = path_join root mf))"
proof (induction ms arbitrary: ob)
  case Nil
  then show ?case by simp
next
  case (Cons mf ms)
  from other_step_total[OF assms, of root fn ex_o used mf ob] obtain ob1 where
    s: "other_step e root fn ex_o used mf ob = Inr ob1" and sub1: "set ob \<subseteq> set ob1"
    and c1: "mf \<notin> used \<longrightarrow> md5_hex e (path_join root mf) \<notin> ex_o \<longrightarrow>
                (\<exists>r \<in> set ob1. ow_id r = md5_hex e (path_join root mf)
                                \<and> ow_file_path r = path_join root mf)" by blast
  from Cons.IH[of ob1] obtain ob' where
    l: "other_loop e root fn ex_o used ms ob1 = Inr ob'" and sub: "set ob1 \<subseteq> set ob'"
    and c: "\<forall>mf \<in> set ms. mf \<notin> used \<longrightarrow> md5_hex e (path_join root mf) \<notin> ex_o \<longrightarrow>
                (\<exists>r \<in> set ob'. ow_id r = md5_hex e (path_join root mf)
                                \<and> ow_file_path r = path_join root mf)" by blast
  have "other_loop e root fn ex_o used (mf # ms) ob = Inr ob'" using s l by simp
  moreover have "set ob \<subseteq> set ob'" using sub1 sub by blast
  moreover have "\<forall>mf' \<in> set (mf # ms). mf' \<notin> used \<longrightarrow> md5_hex e (path_join root mf') \<notin> ex_o \<longrightarrow>
                (\<exists>r \<in> set ob'. ow_id r = md5_hex e (path_join root mf')
                                \<and> ow_file_path r = path_join root mf')"
    using c c1 sub by auto
  ultimately show ?case by blast
qed

lemma scan_worker_summary:
  assumes nf: "\<forall>p. getmtime_ms e p \<noteq> None"
  shows "\<exists>tb pb ob. scan_worker e (root, files, ex_p, ex_t, ex_o) = Inr (tb, pb, ob)
           \<and> tw_id ` fst ` set tb = new_post_ids e root files ex_t
           \<and> fst ` set pb = new_work_ids e root files ex_t ex_p
           \<and> (\<forall>r \<in> set ob. hashed e r \<and> ow_id r \<notin> ex_o
                  \<and> pixiv_folder_match (basename root) = None
                  \<and> ow_filename r \<in> set (media_files_of files)
                  \<and> ow_filename r \<notin> used_by_posts e root files ex_t
                  \<and> ow_file_path r = path_join root (ow_filename r))
           \<and> (pixiv_folder_match (basename root) = None \<longrightarrow>
                (\<forall>mf \<in> set (media_files_of files). mf \<notin> used_by_posts e root files ex_t \<longrightarrow>
                   md5_hex e (path_join root mf) \<notin> ex_o \<longrightarrow>
                   (\<exists>r \<in> set ob. ow_id r = md5_hex e (path_join root mf)
                                  \<and> ow_file_path r = path_join root mf)))"
proof -
  let ?mfs = "media_files_of files"
  let ?fn = "basename root"
  define tl where "tl = tweet_loop e root ?fn ?mfs ex_t (json_files_of files) ([], {})"
  have t_ids: "tw_id ` fst ` set (fst tl) = new_post_ids e root files ex_t"
    unfolding tl_def tweet_loop_ids by (simp add: new_post_ids_def)
  have t_used: "snd tl = used_by_posts e root files ex_t"
    unfolding tl_def tweet_loop_used by (simp add: used_by_posts_def)
  obtain tb U where tl_eq: "tl = (tb, U)" by (cases tl)
  from t_ids t_used tl_eq have tb: "tw_id ` fst ` set tb = new_post_ids e root files ex_t"
    and U: "U = used_by_posts e root files ex_t" by simp_all
  show ?thesis
  proof (cases "pixiv_folder_match ?fn")
    case None
    from other_loop_total[OF nf, of root ?fn ex_o U ?mfs "[]"] obtain ob where
      ol: "other_loop e root ?fn ex_o U ?mfs [] = Inr ob"
      and oc: "\<forall>mf \<in> set ?mfs. mf \<notin> U \<longrightarrow> md5_hex e (path_join root mf) \<notin> ex_o \<longrightarrow>
                (\<exists>r \<in> set ob. ow_id r = md5_hex e (path_join root mf)
                                \<and> ow_file_path r = path_join root mf)" by blast
    have "other_inv e root ?mfs ex_o U []" by (simp add: other_inv_def)
    from other_loop_inv[OF subset_refl this ol] have oi: "other_inv e root ?mfs ex_o U ob" .
    have sw: "scan_worker e (root, files, ex_p, ex_t, ex_o) = Inr (tb, [], ob)"
      using None ol tl_eq unfolding tl_def by (simp add: scan_worker_def Let_def)
    have nw: "new_work_ids e root files ex_t ex_p = {}" using None by (simp add: new_work_ids_def)
    from sw tb nw oi oc None show ?thesis
      unfolding U other_inv_def hashed_def by (intro exI[of _ tb] exI[of _ "[]"] exI[of _ ob]) auto
  next
    case (Some aid)
    from pixiv_loop_total[OF nf, of root ?fn aid "author_name_of ?fn" ex_p ?mfs "[]" U]
    obtain pb where
      pl: "pixiv_loop e root ?fn aid (author_name_of ?fn) ex_p ?mfs ([], U) = Inr (pb, U \<union> set ?mfs)"
      and pk: "fst ` set pb = {fst (pixiv_wid e aid mf) | mf.
                                   mf \<in> set ?mfs \<and> mf \<notin> U \<and> fst (pixiv_wid e aid mf) \<notin> ex_p}"
      by auto
    from other_loop_total[OF nf, of root ?fn ex_o "U \<union> set ?mfs" ?mfs "[]"] obtain ob where
      ol: "other_loop e root ?fn ex_o (U \<union> set ?mfs) ?mfs [] = Inr ob" by blast
    have "other_inv e root ?mfs ex_o (U \<union> set ?mfs) []" by (simp add: other_inv_def)
    from other_loop_inv[OF subset_refl this ol] have "other_inv e root ?mfs ex_o (U \<union> set ?mfs) ob" .
    then have ob: "ob = []" unfolding other_inv_def by (cases ob) auto
    have sw: "scan_worker e (root, files, ex_p, ex_t, ex_o) = Inr (tb, pb, [])"
      using Some pl ol ob tl_eq unfolding tl_def by (simp add: scan_worker_def Let_def)
    have nw: "new_work_ids e root files ex_t ex_p = fst ` set pb"
      using Some pk U by (simp add: new_work_ids_def)
    from sw tb nw Some show ?thesis
      by (intro exI[of _ tb] exI[of _ pb] exI[of _ "[]"]) simp
  qed
qed

text \<open>With larger snapshots that hold what the directory created, nothing is created again.\<close>

lemma used_by_posts_mono:
  assumes "ex \<subseteq> ex'" and "new_post_ids e root files ex \<subseteq> ex'"
  shows "used_by_posts e root files ex \<subseteq> used_by_posts e root files ex'"
proof -
  have "marks e root ex' jf tid" if "marks e root ex jf tid" "jf \<in> set (json_files_of files)"
    for jf tid
    using that assms unfolding marks_def new_post_ids_def creates_def by blast
  then show ?thesis unfolding used_by_posts_def by blast
qed

lemma new_post_ids_again:
  assumes "ex \<subseteq> ex'" and "new_post_ids e root files ex \<subseteq> ex'"
  shows "new_post_ids e root files ex' = {}"
  using assms unfolding new_post_ids_def creates_def by blast

lemma new_work_ids_again:
  assumes "ex_t \<subseteq> ex_t'" and "new_post_ids e root files ex_t \<subseteq> ex_t'"
    and "ex_p \<subseteq> ex_p'" and "new_work_ids e root files ex_t ex_p \<subseteq> ex_p'"
  shows "new_work_ids e root files ex_t' ex_p' = {}"
proof (cases "pixiv_folder_match (basename root)")
  case None
  then show ?thesis by (simp add: new_work_ids_def)
next
  case (Some aid)
  from used_by_posts_mono[OF assms(1,2)] assms(3,4) Some show ?thesis
    unfolding new_work_ids_def by auto
qed

text \<open>
  The loop over the completed futures adds the keys of every result to the keys seen, and
  the final writes put all of them into the store.
\<close>

lemma insert_or_ignore_key_set:
  "key ` set (insert_or_ignore key tbl rows) = key ` set tbl \<union> key ` set rows"
  by (induction rows arbitrary: tbl) auto

lemma insert_or_ignore_append:
  "\<exists>ys. insert_or_ignore key tbl rows = tbl @ ys \<and> set ys \<subseteq> set rows"
proof (induction rows arbitrary: tbl)
  case Nil
  then show ?case by simp
next
  case (Cons r rows)
  show ?case
  proof (cases "key r \<in> set (map key tbl)")
    case True
    with Cons.IH[of tbl] show ?thesis by auto
  next
    case False
    from Cons.IH[of "tbl @ [r]"] obtain ys where
      "insert_or_ignore key (tbl @ [r]) rows = (tbl @ [r]) @ ys" "set ys \<subseteq> set rows" by blast
    with False show ?thesis by (intro exI[of _ "r # ys"]) auto
  qed
qed

lemma work_row_id: "pw_id (work_row wid data) = wid"
  by (simp add: work_row_def)

lemma absorb_seen:
  "seen_posts (absorb s (tb, pb, ob)) = seen_posts s \<union> tw_id ` fst ` set tb"
  "seen_works (absorb s (tb, pb, ob)) = seen_works s \<union> fst ` set pb"
  "seen_others (absorb s (tb, pb, ob)) = seen_others s \<union> set ob"
  "conn (absorb s (tb, pb, ob)) = conn s"
proof -
  show "seen_posts (absorb s (tb, pb, ob)) = seen_posts s \<union> tw_id ` fst ` set tb"
    by (auto simp: seen_posts_def absorb_def)
  have "pw_id ` (\<lambda>(wid, data). work_row wid data) ` set pb = fst ` set pb"
    by (force simp: work_row_id image_iff split_def)
  then show "seen_works (absorb s (tb, pb, ob)) = seen_works s \<union> fst ` set pb"
    by (auto simp: seen_works_def absorb_def image_Un)
  show "seen_others (absorb s (tb, pb, ob)) = seen_others s \<union> set ob"
    by (auto simp: seen_others_def absorb_def)
  show "conn (absorb s (tb, pb, ob)) = conn s" by (simp add: absorb_def)
qed

lemma flush_tweets_seen:
  "seen_posts (flush_tweets s) = seen_posts s" "seen_works (flush_tweets s) = seen_works s"
  "seen_others (flush_tweets s) = seen_others s"
  "other_works (conn (flush_tweets s)) = other_works (conn s)"
  by (auto simp: flush_tweets_def seen_posts_def seen_works_def seen_others_def write_tweets_def
        insert_or_ignore_key_set)

lemma flush_pixiv_seen:
  "seen_posts (flush_pixiv s) = seen_posts s" "seen_works (flush_pixiv s) = seen_works s"
  "seen_others (flush_pixiv s) = seen_others s"
  "other_works (conn (flush_pixiv s)) = other_works (conn s)"
  by (auto simp: flush_pixiv_def seen_posts_def seen_works_def seen_others_def write_pixiv_def
        insert_or_ignore_key_set)

lemma flush_others_seen:
  "seen_posts (flush_others s) = seen_posts s" "seen_works (flush_others s) = seen_works s"
  "ow_id ` seen_others (flush_others s) = ow_id ` seen_others s"
  "seen_others (flush_others s) \<subseteq> seen_others s"
  "set (other_works (conn s)) \<subseteq> set (other_works (conn (flush_others s)))"
proof -
  show "seen_posts (flush_others s) = seen_posts s" "seen_works (flush_others s) = seen_works s"
    by (simp_all add: flush_others_def seen_posts_def seen_works_def write_others_def)
  show "ow_id ` seen_others (flush_others s) = ow_id ` seen_others s"
    by (simp add: flush_others_def seen_others_def write_others_def image_Un
          insert_or_ignore_key_set)
  show "seen_others (flush_others s) \<subseteq> seen_others s"
    using insert_or_ignore_set[of "other_works (conn s)" ow_id "b_others s"]
    by (auto simp: flush_others_def seen_others_def write_others_def)
  show "set (other_works (conn s)) \<subseteq> set (other_works (conn (flush_others s)))"
    using insert_or_ignore_set[of "other_works (conn s)" ow_id "b_others s"]
    by (auto simp: flush_others_def write_others_def)
qed

lemma report_progress_seen:
  "seen_posts (report_progress s) = seen_posts s" "seen_works (report_progress s) = seen_works s"
  "seen_others (report_progress s) = seen_others s" "conn (report_progress s) = conn s"
  by (simp_all add: report_progress_def seen_posts_def seen_works_def seen_others_def)

lemma agg_step_seen:
  "seen_posts (agg_step s fut) = seen_posts s \<union> posts_of fut"
  "seen_works (agg_step s fut) = seen_works s \<union> works_of fut"
  "ow_id ` seen_others (agg_step s fut) = ow_id ` seen_others s \<union> ow_id ` others_of fut"
  "seen_others (agg_step s fut) \<subseteq> seen_others s \<union> others_of fut"
  "set (other_works (conn s)) \<subseteq> set (other_works (conn (agg_step s fut)))"
proof -
  show "seen_posts (agg_step s fut) = seen_posts s \<union> posts_of fut"
    by (cases fut)
      (auto simp: agg_step_def posts_of_def report_progress_seen flush_others_seen
         flush_pixiv_seen flush_tweets_seen absorb_seen split: prod.splits)
  show "seen_works (agg_step s fut) = seen_works s \<union> works_of fut"
    by (cases fut)
      (auto simp: agg_step_def works_of_def report_progress_seen flush_others_seen
         flush_pixiv_seen flush_tweets_seen absorb_seen split: prod.splits)
  show "ow_id ` seen_others (agg_step s fut) = ow_id ` seen_others s \<union> ow_id ` others_of fut"
    by (cases fut)
      (auto simp: agg_step_def others_of_def report_progress_seen flush_others_seen
         flush_pixiv_seen flush_tweets_seen absorb_seen image_Un split: prod.splits)
  show "seen_others (agg_step s fut) \<subseteq> seen_others s \<union> others_of fut"
  proof (cases fut)
    case (Inl a)
    then show ?thesis by (simp add: agg_step_def)
  next
    case (Inr res)
    obtain tb pb ob where res: "res = (tb, pb, ob)" by (cases res)
    have "seen_others (agg_step s fut)
            = seen_others (flush_others (flush_pixiv (flush_tweets (absorb s (tb, pb, ob)))))"
      by (simp add: agg_step_def Inr res report_progress_seen)
    also have "\<dots> \<subseteq> seen_others (flush_pixiv (flush_tweets (absorb s (tb, pb, ob))))"
      by (rule flush_others_seen)
    also have "\<dots> = seen_others s \<union> set ob"
      by (simp add: flush_pixiv_seen flush_tweets_seen absorb_seen)
    finally show ?thesis by (simp add: others_of_def Inr res)
  qed
  show "set (other_works (conn s)) \<subseteq> set (other_works (conn (agg_step s fut)))"
  proof (cases fut)
    case (Inl a)
    then show ?thesis by (simp add: agg_step_def)
  next
    case (Inr res)
    obtain tb pb ob where res: "res = (tb, pb, ob)" by (cases res)
    have "set (other_works (conn s))
            = set (other_works (conn (flush_pixiv (flush_tweets (absorb s (tb, pb, ob))))))"
      by (simp add: flush_pixiv_seen flush_tweets_seen absorb_seen)
    also have "\<dots> \<subseteq> set (other_works (conn (flush_others
                                  (flush_pixiv (flush_tweets (absorb s (tb, pb, ob)))))))"
      by (rule flush_others_seen)
    finally show ?thesis by (simp add: agg_step_def Inr res report_progress_seen)
  qed
qed

lemma foldl_agg_step_seen:
  "seen_posts (foldl agg_step s futs) = seen_posts s \<union> (\<Union>fut \<in> set futs. posts_of fut)"
  "seen_works (foldl agg_step s futs) = seen_works s \<union> (\<Union>fut \<in> set futs. works_of fut)"
  "ow_id ` seen_others (foldl agg_step s futs)
     = ow_id ` seen_others s \<union> (\<Union>fut \<in> set futs. ow_id ` others_of fut)"
  "seen_others (foldl agg_step s futs) \<subseteq> seen_others s \<union> (\<Union>fut \<in> set futs. others_of fut)"
  "set (other_works (conn s)) \<subseteq> set (other_works (conn (foldl agg_step s futs)))"
proof (induction futs arbitrary: s)
  case Nil
  {
    case 1 show ?case by simp
  next
    case 2 show ?case by simp
  next
    case 3 show ?case by simp
  next
    case 4 show ?case by simp
  next
    case 5 show ?case by simp
  }
next
  case (Cons fut futs)
  {
    case 1 show ?case by (simp add: Cons.IH(1) agg_step_seen(1) Un_assoc)
  next
    case 2 show ?case by (simp add: Cons.IH(2) agg_step_seen(2) Un_assoc)
  next
    case 3 show ?case by (simp add: Cons.IH(3) agg_step_seen(3) Un_assoc)
  next
    case 4
    from Cons.IH(4)[of "agg_step s fut"] agg_step_seen(4)[of s fut]
    show ?case by auto
  next
    case 5
    from Cons.IH(5)[of "agg_step s fut"] agg_step_seen(5)[of s fut]
    show ?case by auto
  }
qed

lemma final_flush_seen:
  "tw_id ` set (tweets (final_flush s)) = seen_posts s"
  "pw_id ` set (pixiv_works (final_flush s)) = seen_works s"
  "ow_id ` set (other_works (final_flush s)) = ow_id ` seen_others s"
  "set (other_works (final_flush s)) \<subseteq> seen_others s"
  "set (other_works (conn s)) \<subseteq> set (other_works (final_flush s))"
proof -
  show "tw_id ` set (tweets (final_flush s)) = seen_posts s"
    by (auto simp: final_flush_def Let_def seen_posts_def write_tweets_def write_pixiv_def
          write_others_def insert_or_ignore_key_set)
  show "pw_id ` set (pixiv_works (final_flush s)) = seen_works s"
    by (auto simp: final_flush_def Let_def seen_works_def write_tweets_def write_pixiv_def
          write_others_def insert_or_ignore_key_set)
  show "ow_id ` set (other_works (final_flush s)) = ow_id ` seen_others s"
    by (auto simp: final_flush_def Let_def seen_others_def write_tweets_def write_pixiv_def
          write_others_def insert_or_ignore_key_set image_Un)
  show "set (other_works (final_flush s)) \<subseteq> seen_others s"
    using insert_or_ignore_set[of "other_works (conn s)" ow_id "b_others s"]
    by (auto simp: final_flush_def Let_def seen_others_def write_tweets_def write_pixiv_def
          write_others_def)
  show "set (other_works (conn s)) \<subseteq> set (other_works (final_flush s))"
    using insert_or_ignore_set[of "other_works (conn s)" ow_id "b_others s"]
    by (auto simp: final_flush_def Let_def write_tweets_def write_pixiv_def write_others_def)
qed

text \<open>
  A pass in which every task returns no post, no work and only rows that the clean-up
  deletes leaves the store as it was.
\<close>

lemma completed_futures_set:
  assumes "\<forall>n. \<forall>i<n. i \<in> set (as_completed e n)"
  shows "set (completed_futures e futs) = set futs"
proof
  show "set (completed_futures e futs) \<subseteq> set futs" by (rule completed_futures_subset)
  show "set futs \<subseteq> set (completed_futures e futs)"
  proof
    fix x assume "x \<in> set futs"
    then obtain i where i: "i < length futs" "futs ! i = x" by (auto simp: in_set_conv_nth)
    with assms have "i \<in> set (as_completed e (length futs))" by blast
    with i show "x \<in> set (completed_futures e futs)"
      by (auto simp: completed_futures_def image_iff)
  qed
qed

lemma flush_others_quiet:
  assumes "quiet d s"
  shows "quiet d (flush_others s)"
proof (cases "BATCH \<le> length (b_others s)")
  case False
  with assms show ?thesis by (simp add: flush_others_def)
next
  case True
  from assms obtain ys where ys: "other_works (conn s) = other_works d @ ys"
    "\<forall>r \<in> set ys. claimed_path d (ow_file_path r)" unfolding quiet_def by blast
  from insert_or_ignore_append[of ow_id "other_works (conn s)" "b_others s"]
  obtain zs where zs: "insert_or_ignore ow_id (other_works (conn s)) (b_others s)
                         = other_works (conn s) @ zs" "set zs \<subseteq> set (b_others s)" by blast
  from assms have cl: "\<forall>r \<in> set (b_others s). claimed_path d (ow_file_path r)"
    unfolding quiet_def by blast
  have "other_works (conn (flush_others s)) = other_works d @ (ys @ zs)"
    using True ys(1) zs(1) by (simp add: flush_others_def write_others_def)
  moreover have "\<forall>r \<in> set (ys @ zs). claimed_path d (ow_file_path r)"
    using ys(2) zs(2) cl by auto
  ultimately have "\<exists>ws. other_works (conn (flush_others s)) = other_works d @ ws
                     \<and> (\<forall>r \<in> set ws. claimed_path d (ow_file_path r))" by blast
  with assms True show ?thesis
    unfolding quiet_def by (simp add: flush_others_def write_others_def)
qed

lemma agg_step_quiet:
  assumes "quiet d s"
    and "\<exists>ob. fut = Inr ([], [], ob) \<and> (\<forall>r \<in> set ob. claimed_path d (ow_file_path r))"
  shows "quiet d (agg_step s fut)"
proof -
  from assms(2) obtain ob where fut: "fut = Inr ([], [], ob)"
    and ob: "\<forall>r \<in> set ob. claimed_path d (ow_file_path r)" by blast
  have a: "quiet d (absorb s ([], [], ob))"
    using assms(1) ob unfolding quiet_def absorb_def by auto
  have t: "flush_tweets (absorb s ([], [], ob)) = absorb s ([], [], ob)"
    using a by (simp add: flush_tweets_def quiet_def BATCH_def)
  have p: "flush_pixiv (absorb s ([], [], ob)) = absorb s ([], [], ob)"
    using a by (simp add: flush_pixiv_def quiet_def BATCH_def)
  have "quiet d (flush_others (absorb s ([], [], ob)))"
    by (rule flush_others_quiet[OF a])
  then have "quiet d (report_progress (flush_others (absorb s ([], [], ob))))"
    by (simp add: quiet_def report_progress_def)
  then show ?thesis by (simp add: agg_step_def fut t p)
qed

lemma foldl_agg_step_quiet:
  assumes "quiet d s"
    and "\<forall>fut \<in> set futs. \<exists>ob. fut = Inr ([], [], ob)
                              \<and> (\<forall>r \<in> set ob. claimed_path d (ow_file_path r))"
  shows "quiet d (foldl agg_step s futs)"
  using assms
proof (induction futs arbitrary: s)
  case Nil
  then show ?case by simp
next
  case (Cons fut futs)
  from Cons.prems have "quiet d (agg_step s fut)" by (intro agg_step_quiet) auto
  with Cons show ?case by simp
qed

lemma cleanup_final_flush_quiet:
  assumes q: "quiet d s"
    and un: "\<forall>r \<in> set (other_works d). \<not> claimed_path d (ow_file_path r)"
  shows "cleanup_duplicates (final_flush s) = d"
proof -
  from q obtain ys where ys: "other_works (conn s) = other_works d @ ys"
    "\<forall>r \<in> set ys. claimed_path d (ow_file_path r)" unfolding quiet_def by blast
  from insert_or_ignore_append[of ow_id "other_works (conn s)" "b_others s"]
  obtain zs where zs: "insert_or_ignore ow_id (other_works (conn s)) (b_others s)
                         = other_works (conn s) @ zs" "set zs \<subseteq> set (b_others s)" by blast
  from q have cl: "\<forall>r \<in> set (b_others s). claimed_path d (ow_file_path r)"
    unfolding quiet_def by blast
  define d' where "d' = final_flush s"
  have same: "tweets d' = tweets d" "tweet_media d' = tweet_media d"
    "pixiv_works d' = pixiv_works d" "pixiv_pages d' = pixiv_pages d"
    using q unfolding d'_def quiet_def final_flush_def
    by (simp_all add: Let_def write_others_def)
  have "\<exists>ws. other_works d' = other_works d @ ws
             \<and> (\<forall>r \<in> set ws. claimed_path d (ow_file_path r))"
  proof (cases "b_others s = []")
    case True
    with q ys have "other_works d' = other_works d @ ys"
      unfolding d'_def quiet_def final_flush_def by (simp add: Let_def)
    with ys(2) show ?thesis by blast
  next
    case False
    with q ys(1) zs(1) have "other_works d' = other_works d @ (ys @ zs)"
      unfolding d'_def quiet_def final_flush_def by (simp add: Let_def write_others_def)
    moreover have "\<forall>r \<in> set (ys @ zs). claimed_path d (ow_file_path r)"
      using ys(2) zs(2) cl by auto
    ultimately show ?thesis by blast
  qed
  then obtain ws where ws: "other_works d' = other_works d @ ws"
    "\<forall>r \<in> set ws. claimed_path d (ow_file_path r)" by blast
  have cp: "claimed_path d' = claimed_path d"
    by (simp add: fun_eq_iff claimed_path_def same)
  have "filter (\<lambda>r. \<not> claimed_path d (ow_file_path r)) (other_works d @ ws) = other_works d"
    using un ws(2) by (simp add: filter_empty_conv)
  then have "other_works (cleanup_duplicates d') = other_works d"
    by (simp add: cleanup_duplicates_def cp ws(1))
  moreover have "tweets (cleanup_duplicates d') = tweets d"
    "tweet_media (cleanup_duplicates d') = tweet_media d"
    "pixiv_works (cleanup_duplicates d') = pixiv_works d"
    "pixiv_pages (cleanup_duplicates d') = pixiv_pages d"
    by (simp_all add: cleanup_duplicates_def same)
  ultimately have "cleanup_duplicates d' = d" by (intro store.equality) simp_all
  then show ?thesis by (simp add: d'_def)
qed

lemma scan_body_quiet:
  assumes tasks: "\<forall>task \<in> set (scan_tasks e t (set (map pw_id (pixiv_works d)))
                                 (set (map tw_id (tweets d))) (set (map ow_id (other_works d)))).
                    \<exists>ob. scan_worker e task = Inr ([], [], ob)
                         \<and> (\<forall>r \<in> set ob. claimed_path d (ow_file_path r))"
    and un: "\<forall>r \<in> set (other_works d). \<not> claimed_path d (ow_file_path r)"
  shows "fst (scan_body e d t) = d"
proof (cases "db_available e")
  case False
  then show ?thesis by (simp add: scan_body_def)
next
  case True
  define tks where "tks = scan_tasks e t (set (map pw_id (pixiv_works d)))
                            (set (map tw_id (tweets d))) (set (map ow_id (other_works d)))"
  define s0 where "s0 = \<lparr>conn = d, b_pix_w = [], b_pix_p = [], b_tweets = [], b_tweet_m = [],
                   b_others = [], cnt_t = 0, cnt_p = 0, cnt_o = 0,
                   status = MsgFolders (length tks)\<rparr>"
  have q0: "quiet d s0" by (simp add: quiet_def s0_def)
  have "\<forall>fut \<in> set (completed_futures e (map (scan_worker e) tks)).
          \<exists>ob. fut = Inr ([], [], ob) \<and> (\<forall>r \<in> set ob. claimed_path d (ow_file_path r))"
    using tasks completed_futures_subset[of e "map (scan_worker e) tks"]
    unfolding tks_def[symmetric] by auto
  from foldl_agg_step_quiet[OF q0 this]
  have "cleanup_duplicates (final_flush (foldl agg_step s0
          (completed_futures e (map (scan_worker e) tks)))) = d"
    by (rule cleanup_final_flush_quiet[OF _ un])
  then show ?thesis
    using True by (simp add: scan_body_def Let_def tks_def s0_def)
qed

text \<open>
  The store after a pass holds the keys of the store before it and the keys every directory
  contributes.
\<close>

lemma scan_tasks_dirs:
  "scan_tasks e t ex_p ex_t ex_o
     = map (\<lambda>(root, files). (root, files, ex_p, ex_t, ex_o)) (scan_dirs e t)"
  by (simp add: scan_tasks_def scan_dirs_def)

lemma scan_body_keys:
  assumes nf: "\<forall>p. getmtime_ms e p \<noteq> None"
    and sched: "\<forall>n. \<forall>i<n. i \<in> set (as_completed e n)"
    and db: "db_available e"
  fixes d :: store
  defines "ex_t \<equiv> tw_id ` set (tweets d)"
    and "ex_p \<equiv> pw_id ` set (pixiv_works d)"
    and "ex_o \<equiv> ow_id ` set (other_works d)"
  shows "\<exists>d'. fst (scan_body e d t) = cleanup_duplicates d'
           \<and> ex_t \<subseteq> tw_id ` set (tweets d')
           \<and> ex_p \<subseteq> pw_id ` set (pixiv_works d')
           \<and> (\<forall>(root, files) \<in> set (scan_dirs e t).
                 new_post_ids e root files ex_t \<subseteq> tw_id ` set (tweets d')
                 \<and> new_work_ids e root files ex_t ex_p \<subseteq> pw_id ` set (pixiv_works d')
                 \<and> (pixiv_folder_match (basename root) = None \<longrightarrow>
                      (\<forall>mf \<in> set (media_files_of files).
                         mf \<notin> used_by_posts e root files ex_t \<longrightarrow>
                         md5_hex e (path_join root mf) \<in> ow_id ` set (other_works d'))))
           \<and> (\<forall>r \<in> set (other_works d'). r \<in> set (other_works d) \<or> hashed e r)"
proof -
  define tks where "tks = scan_tasks e t ex_p ex_t ex_o"
  define futs where "futs = map (scan_worker e) tks"
  define s0 where "s0 = \<lparr>conn = d, b_pix_w = [], b_pix_p = [], b_tweets = [], b_tweet_m = [],
                   b_others = [], cnt_t = 0, cnt_p = 0, cnt_o = 0,
                   status = MsgFolders (length tks)\<rparr>"
  define s where "s = foldl agg_step s0 (completed_futures e futs)"
  define d' where "d' = final_flush s"
  have body: "fst (scan_body e d t) = cleanup_duplicates d'"
    using db by (simp add: scan_body_def Let_def d'_def s_def s0_def futs_def tks_def
                   ex_t_def ex_p_def ex_o_def)
  have cf: "set (completed_futures e futs) = set futs"
    by (rule completed_futures_set[OF sched])
  have s0: "seen_posts s0 = ex_t" "seen_works s0 = ex_p" "seen_others s0 = set (other_works d)"
    by (simp_all add: seen_posts_def seen_works_def seen_others_def s0_def ex_t_def ex_p_def)
  have posts: "tw_id ` set (tweets d') = ex_t \<union> (\<Union>fut \<in> set futs. posts_of fut)"
    by (simp add: d'_def final_flush_seen s_def foldl_agg_step_seen cf s0)
  have works: "pw_id ` set (pixiv_works d') = ex_p \<union> (\<Union>fut \<in> set futs. works_of fut)"
    by (simp add: d'_def final_flush_seen s_def foldl_agg_step_seen cf s0)
  have oids: "ow_id ` set (other_works d')
                = ex_o \<union> (\<Union>fut \<in> set futs. ow_id ` others_of fut)"
    by (simp add: d'_def final_flush_seen s_def foldl_agg_step_seen cf s0 ex_o_def)
  have orows: "set (other_works d') \<subseteq> set (other_works d) \<union> (\<Union>fut \<in> set futs. others_of fut)"
    using final_flush_seen(4)[of s] foldl_agg_step_seen(4)[of s0 "completed_futures e futs"]
    by (simp add: d'_def s_def cf s0)
  have dirs: "\<forall>(root, files) \<in> set (scan_dirs e t).
                 new_post_ids e root files ex_t \<subseteq> tw_id ` set (tweets d')
                 \<and> new_work_ids e root files ex_t ex_p \<subseteq> pw_id ` set (pixiv_works d')
                 \<and> (pixiv_folder_match (basename root) = None \<longrightarrow>
                      (\<forall>mf \<in> set (media_files_of files).
                         mf \<notin> used_by_posts e root files ex_t \<longrightarrow>
                         md5_hex e (path_join root mf) \<in> ow_id ` set (other_works d')))"
  proof (intro ballI, clarify)
    fix root files assume rf: "(root, files) \<in> set (scan_dirs e t)"
    define fut where "fut = scan_worker e (root, files, ex_p, ex_t, ex_o)"
    have fin: "fut \<in> set futs"
      using rf by (force simp: futs_def tks_def scan_tasks_dirs fut_def)
    from scan_worker_summary[OF nf, of root files ex_p ex_t ex_o]
    obtain tb pb ob where res0: "scan_worker e (root, files, ex_p, ex_t, ex_o) = Inr (tb, pb, ob)"
      and tb: "tw_id ` fst ` set tb = new_post_ids e root files ex_t"
      and pb: "fst ` set pb = new_work_ids e root files ex_t ex_p"
      and complete: "pixiv_folder_match (basename root) = None \<longrightarrow>
                (\<forall>mf \<in> set (media_files_of files). mf \<notin> used_by_posts e root files ex_t \<longrightarrow>
                   md5_hex e (path_join root mf) \<notin> ex_o \<longrightarrow>
                   (\<exists>r \<in> set ob. ow_id r = md5_hex e (path_join root mf)
                                  \<and> ow_file_path r = path_join root mf))"
      by (elim exE conjE) (rule that, assumption+)
    from res0 have res: "fut = Inr (tb, pb, ob)" by (simp add: fut_def)
    have 1: "new_post_ids e root files ex_t \<subseteq> tw_id ` set (tweets d')"
      using fin tb res unfolding posts by (force simp: posts_of_def)
    have 2: "new_work_ids e root files ex_t ex_p \<subseteq> pw_id ` set (pixiv_works d')"
      using fin pb res unfolding works by (force simp: works_of_def)
    have 3: "md5_hex e (path_join root mf) \<in> ow_id ` set (other_works d')"
      if "pixiv_folder_match (basename root) = None" "mf \<in> set (media_files_of files)"
        "mf \<notin> used_by_posts e root files ex_t" for mf
    proof (cases "md5_hex e (path_join root mf) \<in> ex_o")
      case True
      then show ?thesis unfolding oids by simp
    next
      case False
      with complete that obtain r where "r \<in> set ob" "ow_id r = md5_hex e (path_join root mf)"
        by blast
      then have "md5_hex e (path_join root mf) \<in> ow_id ` others_of fut"
        by (force simp: others_of_def res)
      with fin show ?thesis unfolding oids by blast
    qed
    from 1 2 3
    show "new_post_ids e root files ex_t \<subseteq> tw_id ` set (tweets d')
          \<and> new_work_ids e root files ex_t ex_p \<subseteq> pw_id ` set (pixiv_works d')
          \<and> (pixiv_folder_match (basename root) = None \<longrightarrow>
               (\<forall>mf \<in> set (media_files_of files).
                  mf \<notin> used_by_posts e root files ex_t \<longrightarrow>
                  md5_hex e (path_join root mf) \<in> ow_id ` set (other_works d')))"
      by blast
  qed
  have rows: "\<forall>r \<in> set (other_works d'). r \<in> set (other_works d) \<or> hashed e r"
  proof
    fix r assume "r \<in> set (other_works d')"
    with orows have "r \<in> set (other_works d) \<or> (\<exists>fut \<in> set futs. r \<in> others_of fut)" by blast
    then show "r \<in> set (other_works d) \<or> hashed e r"
    proof
      assume "r \<in> set (other_works d)" then show ?thesis by simp
    next
      assume "\<exists>fut \<in> set futs. r \<in> others_of fut"
      then obtain task where "task \<in> set tks" "r \<in> others_of (scan_worker e task)"
        by (auto simp: futs_def)
      then obtain root files where r: "r \<in> others_of (scan_worker e (root, files, ex_p, ex_t, ex_o))"
        unfolding tks_def scan_tasks_dirs set_map by (elim imageE) (simp add: split_def)
      from scan_worker_summary[OF nf, of root files ex_p ex_t ex_o]
      obtain tb pb ob where res: "scan_worker e (root, files, ex_p, ex_t, ex_o) = Inr (tb, pb, ob)"
        and ob: "\<forall>r \<in> set ob. hashed e r \<and> ow_id r \<notin> ex_o
                  \<and> pixiv_folder_match (basename root) = None
                  \<and> ow_filename r \<in> set (media_files_of files)
                  \<and> ow_filename r \<notin> used_by_posts e root files ex_t
                  \<and> ow_file_path r = path_join root (ow_filename r)"
        by (elim exE conjE) (rule that, assumption+)
      from r res have "r \<in> set ob" by (simp add: others_of_def)
      with ob have "hashed e r" by simp
      then show ?thesis by simp
    qed
  qed
  have "ex_t \<subseteq> tw_id ` set (tweets d')" "ex_p \<subseteq> pw_id ` set (pixiv_works d')"
    unfolding posts works by simp_all
  with body dirs rows show ?thesis by (intro exI[of _ d'] conjI)
qed

text \<open>
  Hence a pass over the tree a pass has just scanned changes nothing, provided that no
  \<open>os.path.getmtime\<close> fails, that every future is yielded by \<open>as_completed\<close>, that the
  database opens, that no two paths have the same hash, and that the unclassified rows the
  store starts with have the hash of their path as id.
\<close>

lemma scan_body_idempotent:
  assumes nf: "\<forall>p. getmtime_ms e p \<noteq> None"
    and sched: "\<forall>n. \<forall>i<n. i \<in> set (as_completed e n)"
    and db: "db_available e"
    and inj: "inj (md5_hex e)"
    and h0: "\<forall>r \<in> set (other_works d). hashed e r"
  shows "fst (scan_body e (fst (scan_body e d t)) t) = fst (scan_body e d t)"
proof -
  define ex_t where "ex_t = tw_id ` set (tweets d)"
  define ex_p where "ex_p = pw_id ` set (pixiv_works d)"
  define d1 where "d1 = fst (scan_body e d t)"
  define ex_t2 where "ex_t2 = tw_id ` set (tweets d1)"
  define ex_p2 where "ex_p2 = pw_id ` set (pixiv_works d1)"
  define ex_o2 where "ex_o2 = ow_id ` set (other_works d1)"
  from scan_body_keys[OF nf sched db, of d t, folded ex_t_def ex_p_def d1_def]
  obtain d' where d1: "d1 = cleanup_duplicates d'"
    and sub_t: "ex_t \<subseteq> tw_id ` set (tweets d')" and sub_p: "ex_p \<subseteq> pw_id ` set (pixiv_works d')"
    and dirs: "\<forall>(root, files) \<in> set (scan_dirs e t).
                 new_post_ids e root files ex_t \<subseteq> tw_id ` set (tweets d')
                 \<and> new_work_ids e root files ex_t ex_p \<subseteq> pw_id ` set (pixiv_works d')
                 \<and> (pixiv_folder_match (basename root) = None \<longrightarrow>
                      (\<forall>mf \<in> set (media_files_of files).
                         mf \<notin> used_by_posts e root files ex_t \<longrightarrow>
                         md5_hex e (path_join root mf) \<in> ow_id ` set (other_works d')))"
    and rows: "\<forall>r \<in> set (other_works d'). r \<in> set (other_works d) \<or> hashed e r"
    by blast
  have t2: "tweets d1 = tweets d'" and p2: "pixiv_works d1 = pixiv_works d'"
    and o2: "other_works d1 = filter (\<lambda>r. \<not> claimed_path d' (ow_file_path r)) (other_works d')"
    by (simp_all add: d1 cleanup_duplicates_def)
  have cp: "claimed_path d1 = claimed_path d'"
    by (simp add: fun_eq_iff claimed_path_def d1 cleanup_duplicates_def)
  have un: "\<forall>r \<in> set (other_works d1). \<not> claimed_path d1 (ow_file_path r)"
    by (simp add: cp o2)
  have hashed': "\<forall>r \<in> set (other_works d'). hashed e r" using rows h0 by blast
  have tasks: "\<forall>task \<in> set (scan_tasks e t (set (map pw_id (pixiv_works d1)))
                                 (set (map tw_id (tweets d1))) (set (map ow_id (other_works d1)))).
                    \<exists>ob. scan_worker e task = Inr ([], [], ob)
                         \<and> (\<forall>r \<in> set ob. claimed_path d1 (ow_file_path r))"
  proof
    fix task
    assume "task \<in> set (scan_tasks e t (set (map pw_id (pixiv_works d1)))
                                 (set (map tw_id (tweets d1))) (set (map ow_id (other_works d1))))"
    then obtain root files where task: "task = (root, files, ex_p2, ex_t2, ex_o2)"
      and rf: "(root, files) \<in> set (scan_dirs e t)"
      by (auto simp: scan_tasks_dirs ex_p2_def ex_t2_def ex_o2_def)
    from dirs rf have n1: "new_post_ids e root files ex_t \<subseteq> ex_t2"
      and w1: "new_work_ids e root files ex_t ex_p \<subseteq> ex_p2"
      and o1: "pixiv_folder_match (basename root) = None \<longrightarrow>
                      (\<forall>mf \<in> set (media_files_of files).
                         mf \<notin> used_by_posts e root files ex_t \<longrightarrow>
                         md5_hex e (path_join root mf) \<in> ow_id ` set (other_works d'))"
      unfolding ex_t2_def ex_p2_def t2 p2 by blast+
    have e1: "ex_t \<subseteq> ex_t2" "ex_p \<subseteq> ex_p2" using sub_t sub_p by (simp_all add: ex_t2_def ex_p2_def t2 p2)
    from scan_worker_summary[OF nf, of root files ex_p2 ex_t2 ex_o2]
    obtain tb pb ob
      where res0: "scan_worker e (root, files, ex_p2, ex_t2, ex_o2) = Inr (tb, pb, ob)"
      and tb: "tw_id ` fst ` set tb = new_post_ids e root files ex_t2"
      and pb: "fst ` set pb = new_work_ids e root files ex_t2 ex_p2"
      and ob: "\<forall>r \<in> set ob. hashed e r \<and> ow_id r \<notin> ex_o2
                  \<and> pixiv_folder_match (basename root) = None
                  \<and> ow_filename r \<in> set (media_files_of files)
                  \<and> ow_filename r \<notin> used_by_posts e root files ex_t2
                  \<and> ow_file_path r = path_join root (ow_filename r)"
      by (elim exE conjE) (rule that, assumption+)
    from res0 have res: "scan_worker e task = Inr (tb, pb, ob)" by (simp add: task)
    have "tb = []" using tb new_post_ids_again[OF e1(1) n1] by simp
    moreover have "pb = []" using pb new_work_ids_again[OF e1(1) n1 e1(2) w1] by simp
    moreover have "claimed_path d1 (ow_file_path r)" if r: "r \<in> set ob" for r
    proof -
      from ob r have hr: "hashed e r" and nid: "ow_id r \<notin> ex_o2"
        and np: "pixiv_folder_match (basename root) = None"
        and mf: "ow_filename r \<in> set (media_files_of files)"
        and nu: "ow_filename r \<notin> used_by_posts e root files ex_t2"
        and path: "ow_file_path r = path_join root (ow_filename r)" by blast+
      from nu used_by_posts_mono[OF e1(1) n1]
      have "ow_filename r \<notin> used_by_posts e root files ex_t" by blast
      with o1 np mf have "md5_hex e (ow_file_path r) \<in> ow_id ` set (other_works d')"
        unfolding path by blast
      then obtain r0 where r0: "r0 \<in> set (other_works d')" "ow_id r0 = md5_hex e (ow_file_path r)"
        by auto
      with hashed' have "md5_hex e (ow_file_path r0) = md5_hex e (ow_file_path r)"
        by (simp add: hashed_def)
      with inj have same: "ow_file_path r0 = ow_file_path r" by (simp add: inj_def)
      from r0(2) hr have "ow_id r0 = ow_id r" by (simp add: hashed_def)
      with nid have "r0 \<notin> set (other_works d1)" unfolding ex_o2_def by (metis imageI)
      with r0(1) have "claimed_path d' (ow_file_path r0)" by (simp add: o2)
      then show ?thesis by (simp add: cp same)
    qed
    ultimately show "\<exists>ob. scan_worker e task = Inr ([], [], ob)
                         \<and> (\<forall>r \<in> set ob. claimed_path d1 (ow_file_path r))"
      using res by blast
  qed
  from scan_body_quiet[OF tasks un] show ?thesis by (simp add: d1_def)
qed

section \<open>Scanning the same tree twice\<close>

text \<open>
  C6. On the tree of \<open>e_link\<close>, scanned twice from the empty store with nothing changed in
  between: the worker of \<open>B_456\<close> raises in the first pass, when it reads the modification
  time of the page of work 55555, and its directory contributes nothing; in the second
  pass work 55555 is in the snapshot, the page is skipped before its modification time is
  read, the worker returns and work 66666 is added. The first pass leaves one work, the
  second two. The identifiers stay distinct in every family.
\<close>

theorem rescan_adds_records:
  "scan_worker e_link (''/t/B_456'', [''55555_p1.jpg'', ''66666_p0.jpg''], {}, {}, {}) = Inl OSError
   \<and> map pw_id (pixiv_works (db (run_scan e_link st_idle ''/t''))) = [''55555'']
   \<and> map pw_id (pixiv_works (db (run_scan e_link (run_scan e_link st_idle ''/t'') ''/t'')))
       = [''55555'', ''66666'']
   \<and> length (pixiv_pages (db (run_scan e_link st_idle ''/t''))) = 1
   \<and> length (pixiv_pages (db (run_scan e_link (run_scan e_link st_idle ''/t'') ''/t''))) = 2
   \<and> ids_distinct (db (run_scan e_link (run_scan e_link st_idle ''/t'') ''/t''))"
  by code_simp

end
